theory Spec2Isabelle
  imports Main "HOL-Library.Stream" "HOL-Library.Word"
begin

unbundle bit_operations_syntax

section \<open>Data model\<close>

text \<open>
  The three dataclasses of \<^verbatim>\<open>RSA.py\<close>. Python integers are unbounded, so every
  field is an \<^typ>\<open>int\<close>.
\<close>

record PublicKey =
  N :: int
  E :: int

record PrivateKey =
  D :: int

record RSAKeyPair =
  public_key :: PublicKey
  private_key :: PrivateKey

text \<open>
  Exceptions of the source, as values. \<open>KeyPairNotGenerated\<close> is
  \<^verbatim>\<open>Exception('Key pair not generated')\<close>, \<open>NoModularInverse\<close> is
  \<^verbatim>\<open>Exception('Modular inverse does not exist')\<close>; the others are the built-in
  exception classes raised by the interpreter and the standard library.
\<close>

datatype error =
    KeyPairNotGenerated
  | NoModularInverse
  | ValueError
  | TypeError
  | KeyError
  | AttributeError
  | ZeroDivisionError
  | UnicodeEncodeError
  | UnicodeDecodeError
  | OSError

text \<open>
  A Python \<^verbatim>\<open>str\<close> is a sequence of code points (\<^verbatim>\<open>ord\<close> of each character); a
  \<^verbatim>\<open>bytes\<close> object is a sequence of bytes, for which HOL's 8-bit \<^typ>\<open>char\<close> is used.
\<close>

type_synonym pystr = "nat list"
type_synonym bytes = "char list"

definition str :: "string \<Rightarrow> pystr" where
  "str s = map of_char s"

section \<open>Integer arithmetic of the RSA class\<close>

text \<open>
  \<^verbatim>\<open>while b != 0: a, b = b, a % b\<close>. Python's \<^verbatim>\<open>%\<close> takes the sign of the divisor, as
  \<open>mod\<close> on \<^typ>\<open>int\<close> does.
\<close>

function gcd_src :: "int \<Rightarrow> int \<Rightarrow> int" where
  "gcd_src a b = (if b \<noteq> 0 then gcd_src b (a mod b) else a)"
  by pat_completeness auto
termination
  by (relation "measure (\<lambda>(a, b). nat \<bar>b\<bar>)") (auto intro!: abs_mod_less)

declare gcd_src.simps [simp del]

text \<open>\<^verbatim>\<open>abs(a * b) // RSA.gcd(a, b)\<close>; the division raises when the gcd is zero.\<close>

definition lcm_src :: "int \<Rightarrow> int \<Rightarrow> error + int" where
  "lcm_src a b = (if gcd_src a b = 0 then Inl ZeroDivisionError
                  else Inr (\<bar>a * b\<bar> div gcd_src a b))"

text \<open>
  The loop of \<^verbatim>\<open>xgcd\<close>, on the six variables it updates; the result is
  \<^verbatim>\<open>(a, prevx, prevy)\<close>.
\<close>

function xgcd_loop :: "int \<Rightarrow> int \<Rightarrow> int \<Rightarrow> int \<Rightarrow> int \<Rightarrow> int \<Rightarrow> int \<times> int \<times> int" where
  "xgcd_loop a b prevx x prevy y =
     (if b \<noteq> 0 then
        (let q = a div b
         in xgcd_loop b (a mod b) x (prevx - q * x) y (prevy - q * y))
      else (a, prevx, prevy))"
  by pat_completeness auto
termination
  by (relation "measure (\<lambda>(a, b, prevx, x, prevy, y). nat \<bar>b\<bar>)") (auto intro!: abs_mod_less)

declare xgcd_loop.simps [simp del]

definition xgcd :: "int \<Rightarrow> int \<Rightarrow> int \<times> int \<times> int" where
  "xgcd a b = xgcd_loop a b 1 0 0 1"

definition modinv :: "int \<Rightarrow> int \<Rightarrow> error + int" where
  "modinv a m = (case xgcd a m of (g, x, _) \<Rightarrow>
                   if g \<noteq> 1 then Inl NoModularInverse else Inr (x mod m))"

text \<open>
  The built-in three-argument \<^verbatim>\<open>pow(base, exp, mod)\<close> on integers: \<open>ValueError\<close> for a
  zero modulus; for a negative exponent the base is first replaced by its inverse modulo
  \<open>\<bar>mod\<bar>\<close> (\<open>ValueError\<close> when there is none); the result has the sign of the modulus.
  \<open>pow_mod\<close> is the exponentiation itself for a non-negative exponent and a non-zero
  modulus, by repeated squaring; it equals \<open>b ^ e mod m\<close> (lemma \<open>pow_mod_eq\<close>).
\<close>

function pow_mod :: "int \<Rightarrow> int \<Rightarrow> int \<Rightarrow> int" where
  "pow_mod b e m =
     (if e \<le> 0 then 1 mod m
      else (let h = pow_mod b (e div 2) m; sq = h * h mod m
            in if e mod 2 = 0 then sq else b * sq mod m))"
  by pat_completeness auto
termination
  by (relation "measure (\<lambda>(b, e, m). nat e)") auto

declare pow_mod.simps [simp del]

definition invmod :: "int \<Rightarrow> int \<Rightarrow> int option" where
  "invmod b m = find (\<lambda>x. (b * x) mod m = 1 mod m) (map int [0..<nat m])"

definition pow3 :: "int \<Rightarrow> int \<Rightarrow> int \<Rightarrow> error + int" where
  "pow3 b e m =
     (if m = 0 then Inl ValueError
      else if 0 \<le> e then Inr (pow_mod b e m)
      else (case invmod b \<bar>m\<bar> of
              None \<Rightarrow> Inl ValueError
            | Some i \<Rightarrow> Inr (pow_mod i (- e) m)))"

section \<open>The random source\<close>

text \<open>
  The module \<^verbatim>\<open>random\<close> is outside the repository. A run of the program is determined
  by the values the generator returns, so the model takes them from a stream of raw draws:
  \<^verbatim>\<open>getrandbits(k)\<close> reduces the next draw into \<open>[0, 2^k)\<close> and
  \<^verbatim>\<open>randrange(lo, hi)\<close> into \<open>[lo, hi)\<close>. Every stream is a possible run and every
  possible run is some stream. Both call sites of \<^verbatim>\<open>randrange\<close> have \<open>lo < hi\<close>
  (\<open>n \<ge> 5\<close> in \<^verbatim>\<open>is_prime\<close>, constants in \<^verbatim>\<open>generate_keys\<close>), so its
  \<^verbatim>\<open>ValueError\<close> for an empty range is unreachable.
\<close>

type_synonym rng = "nat stream"

definition getrandbits :: "nat \<Rightarrow> rng \<Rightarrow> int \<times> rng" where
  "getrandbits k g = (int (shd g mod 2 ^ k), stl g)"

definition randrange :: "int \<Rightarrow> int \<Rightarrow> rng \<Rightarrow> int \<times> rng" where
  "randrange lo hi g = (lo + int (shd g) mod (hi - lo), stl g)"

section \<open>Miller-Rabin test and prime generation\<close>

text \<open>
  \<^verbatim>\<open>while r % 2 == 0: s += 1; r //= 2\<close>. The loop does not end for \<open>r = 0\<close>; it is
  only entered with \<open>r = n - 1 \<ge> 4\<close>, and the guard \<open>r \<noteq> 0\<close> makes the model total.
\<close>

function decompose :: "nat \<Rightarrow> int \<Rightarrow> nat \<times> int" where
  "decompose s r = (if r \<noteq> 0 \<and> r mod 2 = 0 then decompose (s + 1) (r div 2) else (s, r))"
  by pat_completeness auto
termination
  by (relation "measure (\<lambda>(s, r). nat \<bar>r\<bar>)") auto

declare decompose.simps [simp del]

text \<open>
  The inner \<^verbatim>\<open>for __ in range(s - 1)\<close> with its \<^verbatim>\<open>else: return False\<close>: \<open>True\<close> when
  the loop leaves by \<^verbatim>\<open>break\<close>, \<open>False\<close> when it runs out.
\<close>

fun squarings :: "nat \<Rightarrow> int \<Rightarrow> int \<Rightarrow> bool" where
  "squarings 0 x n = False"
| "squarings (Suc c) x n =
     (let x' = pow_mod x 2 n in if x' = n - 1 then True else squarings c x' n)"

text \<open>One iteration of \<^verbatim>\<open>for _ in range(k)\<close> for the base \<open>a\<close>: does the base accept \<open>n\<close>?\<close>

definition base_passes :: "int \<Rightarrow> nat \<Rightarrow> int \<Rightarrow> int \<Rightarrow> bool" where
  "base_passes n s r a =
     (let x = pow_mod a r n in x = 1 \<or> x = n - 1 \<or> squarings (s - 1) x n)"

fun rounds :: "nat \<Rightarrow> int \<Rightarrow> nat \<Rightarrow> int \<Rightarrow> rng \<Rightarrow> bool \<times> rng" where
  "rounds 0 n s r g = (True, g)"
| "rounds (Suc k) n s r g =
     (case randrange 2 (n - 1) g of (a, g') \<Rightarrow>
        if base_passes n s r a then rounds k n s r g' else (False, g'))"

definition is_prime :: "int \<Rightarrow> nat \<Rightarrow> rng \<Rightarrow> bool \<times> rng" where
  "is_prime n k g =
     (if n = 2 \<or> n = 3 then (True, g)
      else if n \<le> 1 \<or> n mod 2 = 0 then (False, g)
      else (case decompose 0 (n - 1) of (s, r) \<Rightarrow> rounds k n s r g))"

text \<open>
  \<^verbatim>\<open>p |= (1 << length - 1) | 1\<close>: the shift count is \<open>length - 1\<close>.
\<close>

definition candidate :: "int \<Rightarrow> int \<Rightarrow> int" where
  "candidate len p0 = p0 OR (push_bit (nat (len - 1)) 1 OR 1)"

text \<open>
  One pass through the body of the loop of \<^verbatim>\<open>generate_prime_number\<close>: the candidate,
  the verdict of \<^verbatim>\<open>is_prime\<close> and the random source left over; and the random source
  after \<open>n\<close> passes.
\<close>

definition attempt :: "int \<Rightarrow> rng \<Rightarrow> int \<times> bool \<times> rng" where
  "attempt len g =
     (case getrandbits (nat len) g of (p0, g1) \<Rightarrow>
        (case is_prime (candidate len p0) 128 g1 of (ok, g2) \<Rightarrow> (candidate len p0, ok, g2)))"

fun after_attempts :: "nat \<Rightarrow> int \<Rightarrow> rng \<Rightarrow> rng" where
  "after_attempts 0 len g = g"
| "after_attempts (Suc n) len g = after_attempts n len (snd (snd (attempt len g)))"

text \<open>
  \<^verbatim>\<open>generate_prime_number\<close>: \<^verbatim>\<open>while True\<close> with no bound, so \<open>None\<close> is a run that
  never returns. A length \<open>\<le> 0\<close> raises \<open>ValueError\<close> (negative bit count or negative
  shift count). \<^verbatim>\<open>is_prime\<close> is called with its default \<open>k = 128\<close>.
\<close>

partial_function (option) generate_prime_number :: "int \<Rightarrow> rng \<Rightarrow> (error + int \<times> rng) option" where
  "generate_prime_number len g =
     (if len \<le> 0 then Some (Inl ValueError)
      else (case getrandbits (nat len) g of (p0, g1) \<Rightarrow>
              (case is_prime (candidate len p0) 128 g1 of (ok, g2) \<Rightarrow>
                 if ok then Some (Inr (candidate len p0, g2))
                 else generate_prime_number len g2)))"

section \<open>Key generation\<close>

record RSA =
  key_length :: int
  key_pair :: "RSAKeyPair option"

text \<open>\<^verbatim>\<open>RSA.__init__\<close>, with the default \<^verbatim>\<open>key_length=2048\<close> as \<open>RSA_init 2048\<close>.\<close>

definition RSA_init :: "int \<Rightarrow> RSA" where
  "RSA_init L = \<lparr>key_length = L, key_pair = None\<rparr>"

text \<open>The inner \<^verbatim>\<open>while True\<close> that draws the public exponent.\<close>

partial_function (option) find_e :: "int \<Rightarrow> rng \<Rightarrow> (int \<times> rng) option" where
  "find_e totient g =
     (case randrange (2 ^ 16) (2 ^ 17) g of (e, g') \<Rightarrow>
        if gcd_src e totient = 1 then Some (e, g') else find_e totient g')"

text \<open>
  The local variables of \<^verbatim>\<open>generate_keys\<close> at its \<^verbatim>\<open>return\<close>. The method itself
  keeps only \<open>n\<close>, \<open>e\<close> and \<open>d\<close>.
\<close>

record keygen_locals =
  kg_p :: int
  kg_q :: int
  kg_n :: int
  kg_totient :: int
  kg_e :: int
  kg_d :: int

partial_function (option) generate_keys_loop :: "int \<Rightarrow> rng \<Rightarrow> (error + keygen_locals \<times> rng) option" where
  "generate_keys_loop L g =
     (case generate_prime_number (L div 2) g of
        None \<Rightarrow> None
      | Some (Inl err) \<Rightarrow> Some (Inl err)
      | Some (Inr (p, g1)) \<Rightarrow>
         (case generate_prime_number (L div 2) g1 of
            None \<Rightarrow> None
          | Some (Inl err) \<Rightarrow> Some (Inl err)
          | Some (Inr (q, g2)) \<Rightarrow>
             if p \<noteq> q then
               (case lcm_src (p - 1) (q - 1) of
                  Inl err \<Rightarrow> Some (Inl err)
                | Inr totient \<Rightarrow>
                   (case find_e totient g2 of
                      None \<Rightarrow> None
                    | Some (e, g3) \<Rightarrow>
                       (case modinv e totient of
                          Inl err \<Rightarrow> Some (Inl err)
                        | Inr d \<Rightarrow>
                           Some (Inr (\<lparr>kg_p = p, kg_q = q, kg_n = p * q, kg_totient = totient,
                                      kg_e = e, kg_d = d\<rparr>, g3)))))
             else generate_keys_loop L g2))"

definition keypair_of :: "keygen_locals \<Rightarrow> RSAKeyPair" where
  "keypair_of l = \<lparr>public_key = \<lparr>N = kg_n l, E = kg_e l\<rparr>, private_key = \<lparr>D = kg_d l\<rparr>\<rparr>"

text \<open>\<^verbatim>\<open>generate_keys\<close>: the key pair is stored in the instance.\<close>

definition generate_keys :: "RSA \<Rightarrow> rng \<Rightarrow> (error + RSA \<times> rng) option" where
  "generate_keys rsa g =
     (case generate_keys_loop (key_length rsa) g of
        None \<Rightarrow> None
      | Some (Inl err) \<Rightarrow> Some (Inl err)
      | Some (Inr (l, g')) \<Rightarrow> Some (Inr (rsa\<lparr>key_pair := Some (keypair_of l)\<rparr>, g')))"

text \<open>
  Three random sources, used as concrete runs below. With \<open>draws_prime\<close> the generator
  for 5 bits draws the candidates 17 and 23; with \<open>draws_composite\<close> it draws 25 and then
  128 times the base 7, for which 25 passes the Miller-Rabin test; with \<open>draws_forever\<close>
  every candidate is 21 and every base is 4.
\<close>

definition draws_prime :: rng where
  "draws_prime = 0 ## (replicate 128 5 @- (6 ## (replicate 128 5 @- sconst 65537)))"

definition draws_composite :: rng where
  "draws_composite = 8 ## (replicate 128 5 @- (0 ## (replicate 128 5 @- sconst 65537)))"

definition draws_forever :: rng where
  "draws_forever = cycle [4, 2]"

text \<open>
  Primality, by trial division. This is the property the claims speak of; the program
  itself only has the Miller-Rabin verdict.
\<close>

definition prime_number :: "int \<Rightarrow> bool" where
  "prime_number p \<longleftrightarrow> 1 < p \<and> (\<forall>d\<in>{2..<p}. \<not> d dvd p)"

section \<open>Strings, bytes and the hash\<close>

text \<open>
  \<^verbatim>\<open>str.encode()\<close>: UTF-8. A surrogate code point cannot be encoded; a Python string
  holds no code point above \<open>0x10FFFF\<close>, for which the model returns the same error.
\<close>

definition utf8_char :: "nat \<Rightarrow> error + nat list" where
  "utf8_char c =
     (if c < 0x80 then Inr [c]
      else if c < 0x800 then Inr [0xC0 + c div 64, 0x80 + c mod 64]
      else if 0xD800 \<le> c \<and> c \<le> 0xDFFF then Inl UnicodeEncodeError
      else if c < 0x10000 then Inr [0xE0 + c div 4096, 0x80 + c div 64 mod 64, 0x80 + c mod 64]
      else if c \<le> 0x10FFFF then
        Inr [0xF0 + c div 262144, 0x80 + c div 4096 mod 64, 0x80 + c div 64 mod 64, 0x80 + c mod 64]
      else Inl UnicodeEncodeError)"

fun utf8_encode :: "pystr \<Rightarrow> error + nat list" where
  "utf8_encode [] = Inr []"
| "utf8_encode (c # cs) =
     (case utf8_char c of
        Inl e \<Rightarrow> Inl e
      | Inr bs \<Rightarrow> (case utf8_encode cs of Inl e \<Rightarrow> Inl e | Inr rest \<Rightarrow> Inr (bs @ rest)))"

text \<open>
  \<^verbatim>\<open>bytes.decode()\<close>: strict UTF-8, which rejects stray continuation bytes, truncated and
  overlong sequences, surrogates and values above \<open>0x10FFFF\<close>.
\<close>

definition is_cont :: "nat \<Rightarrow> bool" where
  "is_cont b \<longleftrightarrow> 0x80 \<le> b \<and> b < 0xC0"

fun utf8_decode :: "nat list \<Rightarrow> error + pystr" where
  "utf8_decode [] = Inr []"
| "utf8_decode (b # bs) =
     (if b < 0x80 then
        (case utf8_decode bs of Inl e \<Rightarrow> Inl e | Inr cs \<Rightarrow> Inr (b # cs))
      else if 0xC0 \<le> b \<and> b < 0xE0 then
        (case bs of
           b1 # r \<Rightarrow>
             (let c = (b - 0xC0) * 64 + (b1 - 0x80)
              in if is_cont b1 \<and> 0x80 \<le> c then
                   (case utf8_decode r of Inl e \<Rightarrow> Inl e | Inr cs \<Rightarrow> Inr (c # cs))
                 else Inl UnicodeDecodeError)
         | _ \<Rightarrow> Inl UnicodeDecodeError)
      else if 0xE0 \<le> b \<and> b < 0xF0 then
        (case bs of
           b1 # b2 # r \<Rightarrow>
             (let c = (b - 0xE0) * 4096 + (b1 - 0x80) * 64 + (b2 - 0x80)
              in if is_cont b1 \<and> is_cont b2 \<and> 0x800 \<le> c \<and> \<not> (0xD800 \<le> c \<and> c \<le> 0xDFFF) then
                   (case utf8_decode r of Inl e \<Rightarrow> Inl e | Inr cs \<Rightarrow> Inr (c # cs))
                 else Inl UnicodeDecodeError)
         | _ \<Rightarrow> Inl UnicodeDecodeError)
      else if 0xF0 \<le> b \<and> b < 0xF8 then
        (case bs of
           b1 # b2 # b3 # r \<Rightarrow>
             (let c = (b - 0xF0) * 262144 + (b1 - 0x80) * 4096 + (b2 - 0x80) * 64 + (b3 - 0x80)
              in if is_cont b1 \<and> is_cont b2 \<and> is_cont b3 \<and> 0x10000 \<le> c \<and> c \<le> 0x10FFFF then
                   (case utf8_decode r of Inl e \<Rightarrow> Inl e | Inr cs \<Rightarrow> Inr (c # cs))
                 else Inl UnicodeDecodeError)
         | _ \<Rightarrow> Inl UnicodeDecodeError)
      else Inl UnicodeDecodeError)"

subsection \<open>SHA-256\<close>

text \<open>
  \<^verbatim>\<open>hashlib.sha256\<close> (FIPS 180-4) on a list of bytes. Words are integers in
  \<open>[0, 2^32)\<close> with the reduction written out; the round constants and the initial
  hash value are written in decimal.
\<close>

definition K256 :: "int list" where
  "K256 = [
   1116352408, 1899447441, 3049323471, 3921009573, 961987163, 1508970993, 2453635748, 2870763221,
   3624381080, 310598401, 607225278, 1426881987, 1925078388, 2162078206, 2614888103, 3248222580,
   3835390401, 4022224774, 264347078, 604807628, 770255983, 1249150122, 1555081692, 1996064986,
   2554220882, 2821834349, 2952996808, 3210313671, 3336571891, 3584528711, 113926993, 338241895,
   666307205, 773529912, 1294757372, 1396182291, 1695183700, 1986661051, 2177026350, 2456956037,
   2730485921, 2820302411, 3259730800, 3345764771, 3516065817, 3600352804, 4094571909, 275423344,
   430227734, 506948616, 659060556, 883997877, 958139571, 1322822218, 1537002063, 1747873779,
   1955562222, 2024104815, 2227730452, 2361852424, 2428436474, 2756734187, 3204031479, 3329325298]"

type_synonym sha_state = "int \<times> int \<times> int \<times> int \<times> int \<times> int \<times> int \<times> int"

definition H256 :: sha_state where
  "H256 = (1779033703, 3144134277, 1013904242, 2773480762,
           1359893119, 2600822924, 528734635, 1541459225)"

definition rotr :: "nat \<Rightarrow> int \<Rightarrow> int" where
  "rotr n x = (x div 2 ^ n) OR ((x * 2 ^ (32 - n)) mod 2 ^ 32)"

definition Sigma0 :: "int \<Rightarrow> int" where
  "Sigma0 x = rotr 2 x XOR rotr 13 x XOR rotr 22 x"

definition Sigma1 :: "int \<Rightarrow> int" where
  "Sigma1 x = rotr 6 x XOR rotr 11 x XOR rotr 25 x"

definition sigma0 :: "int \<Rightarrow> int" where
  "sigma0 x = rotr 7 x XOR rotr 18 x XOR (x div 2 ^ 3)"

definition sigma1 :: "int \<Rightarrow> int" where
  "sigma1 x = rotr 17 x XOR rotr 19 x XOR (x div 2 ^ 10)"

definition Ch :: "int \<Rightarrow> int \<Rightarrow> int \<Rightarrow> int" where
  "Ch x y z = (x AND y) XOR ((2 ^ 32 - 1 - x) AND z)"

definition Maj :: "int \<Rightarrow> int \<Rightarrow> int \<Rightarrow> int" where
  "Maj x y z = (x AND y) XOR (x AND z) XOR (y AND z)"

definition sha_round :: "sha_state \<Rightarrow> int \<times> int \<Rightarrow> sha_state" where
  "sha_round s kw = (case s of (a, b, c, d, e, f, g, h) \<Rightarrow> case kw of (k, w) \<Rightarrow>
     (let T1 = (h + Sigma1 e + Ch e f g + k + w) mod 2 ^ 32;
          T2 = (Sigma0 a + Maj a b c) mod 2 ^ 32
      in ((T1 + T2) mod 2 ^ 32, a, b, c, (d + T1) mod 2 ^ 32, e, f, g)))"

text \<open>The message schedule; \<open>ws\<close> holds the words computed so far, the latest first.\<close>

fun schedule :: "nat \<Rightarrow> int list \<Rightarrow> int list" where
  "schedule 0 ws = ws"
| "schedule (Suc n) ws =
     schedule n (((sigma1 (ws ! 1) + ws ! 6 + sigma0 (ws ! 14) + ws ! 15) mod 2 ^ 32) # ws)"

definition add_state :: "sha_state \<Rightarrow> sha_state \<Rightarrow> sha_state" where
  "add_state s t = (case s of (a, b, c, d, e, f, g, h) \<Rightarrow>
     case t of (a', b', c', d', e', f', g', h') \<Rightarrow>
       ((a + a') mod 2 ^ 32, (b + b') mod 2 ^ 32, (c + c') mod 2 ^ 32, (d + d') mod 2 ^ 32,
        (e + e') mod 2 ^ 32, (f + f') mod 2 ^ 32, (g + g') mod 2 ^ 32, (h + h') mod 2 ^ 32))"

definition be_int :: "int list \<Rightarrow> int" where
  "be_int bs = foldl (\<lambda>acc b. acc * 256 + b) 0 bs"

fun words_of :: "nat \<Rightarrow> int list \<Rightarrow> int list" where
  "words_of 0 bs = []"
| "words_of (Suc n) bs = be_int (take 4 bs) # words_of n (drop 4 bs)"

definition process_block :: "sha_state \<Rightarrow> int list \<Rightarrow> sha_state" where
  "process_block hs block =
     add_state hs (foldl sha_round hs (zip K256 (rev (schedule 48 (rev (words_of 16 block))))))"

fun chunks :: "nat \<Rightarrow> int list \<Rightarrow> int list list" where
  "chunks 0 bs = []"
| "chunks (Suc n) bs = take 64 bs # chunks n (drop 64 bs)"

definition be_bytes :: "nat \<Rightarrow> int \<Rightarrow> int list" where
  "be_bytes n v = map (\<lambda>i. (v div 256 ^ (n - 1 - i)) mod 256) [0..<n]"

definition pad :: "int list \<Rightarrow> int list" where
  "pad m = m @ [0x80] @ replicate ((119 - length m mod 64) mod 64) 0
             @ be_bytes 8 (8 * int (length m))"

definition sha256 :: "int list \<Rightarrow> sha_state" where
  "sha256 m = foldl process_block H256 (chunks (length (pad m) div 64) (pad m))"

definition digest_int :: "sha_state \<Rightarrow> int" where
  "digest_int s = (case s of (a, b, c, d, e, f, g, h) \<Rightarrow>
     foldl (\<lambda>acc w. acc * 2 ^ 32 + w) 0 [a, b, c, d, e, f, g, h])"

text \<open>The eight words of a hash value are 32-bit words.\<close>

definition words32 :: "sha_state \<Rightarrow> bool" where
  "words32 s = (case s of (a, b, c, d, e, f, g, h) \<Rightarrow>
     list_all (\<lambda>w. 0 \<le> w \<and> w < 2 ^ 32) [a, b, c, d, e, f, g, h])"

text \<open>
  \<^verbatim>\<open>int(self.create_hash(message), 16)\<close>, as \<^verbatim>\<open>sign\<close> and \<^verbatim>\<open>verify\<close> use it:
  \<^verbatim>\<open>create_hash\<close> returns the digest as 64 hexadecimal digits and both callers read
  them back as a base-16 integer, so the model keeps the integer.
\<close>

definition hash_int :: "pystr \<Rightarrow> error + int" where
  "hash_int message =
     (case utf8_encode message of
        Inl e \<Rightarrow> Inl e
      | Inr bs \<Rightarrow> Inr (digest_int (sha256 (map int bs))))"

section \<open>Cipher and signature\<close>

text \<open>
  The first exception raised ends a list comprehension: the elements are evaluated from
  left to right.
\<close>

fun traverse :: "('a \<Rightarrow> error + 'b) \<Rightarrow> 'a list \<Rightarrow> error + 'b list" where
  "traverse f [] = Inr []"
| "traverse f (x # xs) =
     (case f x of
        Inl e \<Rightarrow> Inl e
      | Inr y \<Rightarrow> (case traverse f xs of Inl e \<Rightarrow> Inl e | Inr ys \<Rightarrow> Inr (y # ys)))"

text \<open>\<^verbatim>\<open>chr(i)\<close> raises \<open>ValueError\<close> outside \<open>range(0x110000)\<close>.\<close>

definition chr :: "int \<Rightarrow> error + nat" where
  "chr i = (if 0 \<le> i \<and> i \<le> 0x10FFFF then Inr (nat i) else Inl ValueError)"

text \<open>\<^verbatim>\<open>[pow(ord(char), public_key.E, public_key.N) for char in message]\<close>\<close>

definition encrypt :: "pystr \<Rightarrow> PublicKey \<Rightarrow> error + int list" where
  "encrypt message pk = traverse (\<lambda>char. pow3 (int char) (E pk) (N pk)) message"

text \<open>
  What \<^verbatim>\<open>json.loads\<close> returns. \<^verbatim>\<open>decrypt\<close> and \<^verbatim>\<open>verify\<close> receive such values
  unchecked from \<^verbatim>\<open>handle_received_message\<close>, so the model of both takes them as they
  come: an integer (or a boolean, which is an integer in Python) where the code computes
  with it, \<open>TypeError\<close> otherwise. A float is kept as its literal.
\<close>

datatype json =
    JNull
  | JBool bool
  | JInt int
  | JFloat pystr
  | JStr pystr
  | JList "json list"
  | JObj "(pystr \<times> json) list"

definition as_int :: "json \<Rightarrow> error + int" where
  "as_int v = (case v of
                 JInt i \<Rightarrow> Inr i
               | JBool b \<Rightarrow> Inr (if b then 1 else 0)
               | _ \<Rightarrow> Inl TypeError)"

text \<open>
  Iterating over a value: the elements of a list, the characters of a string, the keys of
  an object; \<open>TypeError\<close> for anything else.
\<close>

definition iterate :: "json \<Rightarrow> error + json list" where
  "iterate v = (case v of
                  JList xs \<Rightarrow> Inr xs
                | JStr cs \<Rightarrow> Inr (map (\<lambda>c. JStr [c]) cs)
                | JObj kvs \<Rightarrow> Inr (map (\<lambda>kv. JStr (fst kv)) kvs)
                | _ \<Rightarrow> Inl TypeError)"

definition decrypt_unit :: "RSAKeyPair \<Rightarrow> json \<Rightarrow> error + nat" where
  "decrypt_unit kp char_code =
     (case as_int char_code of
        Inl e \<Rightarrow> Inl e
      | Inr c \<Rightarrow>
         (case pow3 c (D (private_key kp)) (N (public_key kp)) of
            Inl e \<Rightarrow> Inl e
          | Inr r \<Rightarrow> chr r))"

definition decrypt :: "RSA \<Rightarrow> json \<Rightarrow> error + pystr" where
  "decrypt rsa encrypted_message =
     (case key_pair rsa of
        None \<Rightarrow> Inl KeyPairNotGenerated
      | Some kp \<Rightarrow>
         (case iterate encrypted_message of
            Inl e \<Rightarrow> Inl e
          | Inr units \<Rightarrow> traverse (decrypt_unit kp) units))"

definition sign :: "RSA \<Rightarrow> pystr \<Rightarrow> error + int" where
  "sign rsa message =
     (case key_pair rsa of
        None \<Rightarrow> Inl KeyPairNotGenerated
      | Some kp \<Rightarrow>
         (case hash_int message of
            Inl e \<Rightarrow> Inl e
          | Inr h \<Rightarrow> pow3 h (D (private_key kp)) (N (public_key kp))))"

text \<open>
  \<^verbatim>\<open>verify\<close>: the hash is computed first; \<^verbatim>\<open>public_key.E\<close> raises
  \<open>AttributeError\<close> when the key is \<^verbatim>\<open>None\<close>, before \<^verbatim>\<open>pow\<close> is called.
\<close>

definition verify :: "pystr \<Rightarrow> json \<Rightarrow> PublicKey option \<Rightarrow> error + bool" where
  "verify message signature pk =
     (case hash_int message of
        Inl e \<Rightarrow> Inl e
      | Inr h \<Rightarrow>
         (case pk of
            None \<Rightarrow> Inl AttributeError
          | Some k \<Rightarrow>
             (case as_int signature of
                Inl e \<Rightarrow> Inl e
              | Inr sg \<Rightarrow>
                 (case pow3 sg (E k) (N k) of
                    Inl e \<Rightarrow> Inl e
                  | Inr hash_from_signature \<Rightarrow> Inr (h = hash_from_signature)))))"

section \<open>The chat application\<close>

text \<open>
  The lines that \<^verbatim>\<open>update_chat\<close> appends to the chat display, one constructor per
  format string of the source.
\<close>

datatype event =
    ReceivedPublicKey
  | PublicKeyError error
  | ChatLine json pystr
  | SignatureVerificationFailed
  | JSONDecodingError
  | MessageHandlingError error
  | PublicKeySent
  | CannotSendPublicKey
  | SendingError error
  | NotConnected
  | You pystr
  | KeysNotExchanged
  | ReceivingError error

text \<open>
  A connected socket, seen from the sender: the arguments of the \<^verbatim>\<open>sendall\<close> calls so
  far, and whether the next \<^verbatim>\<open>sendall\<close> raises (a failure of the transport, which
  the program cannot influence).
\<close>

record socket =
  written :: "nat list list"
  failing :: bool

text \<open>
  The fields of \<^verbatim>\<open>ChatApp\<close> that the protocol reads or writes. \<^verbatim>\<open>header_size\<close> is
  set to 10 in \<^verbatim>\<open>__init__\<close> and never assigned again.
\<close>

record ChatApp =
  rsa :: RSA
  client_socket :: "socket option"
  other_public_key :: "PublicKey option"
  is_client :: bool
  chat :: "event list"

text \<open>Everything written to the connection so far; nothing when there is no connection.\<close>

definition sent :: "ChatApp \<Rightarrow> nat list list" where
  "sent app = (case client_socket app of None \<Rightarrow> [] | Some sock \<Rightarrow> written sock)"

definition header_size :: nat where
  "header_size = 10"

definition ChatApp_init :: ChatApp where
  "ChatApp_init = \<lparr>rsa = RSA_init 2048, client_socket = None, other_public_key = None,
                    is_client = False, chat = []\<rparr>"

definition update_chat :: "ChatApp \<Rightarrow> event \<Rightarrow> ChatApp" where
  "update_chat app ev = app\<lparr>chat := chat app @ [ev]\<rparr>"

subsection \<open>Decimal text\<close>

text \<open>\<^verbatim>\<open>str(n)\<close> of an integer, as f-strings insert it.\<close>

function digits :: "nat \<Rightarrow> pystr" where
  "digits n = (if n < 10 then [48 + n] else digits (n div 10) @ [48 + n mod 10])"
  by pat_completeness auto
termination
  by (relation "measure id") auto

declare digits.simps [simp del]

definition str_of_int :: "int \<Rightarrow> pystr" where
  "str_of_int i = (if i < 0 then 45 # digits (nat (- i)) else digits (nat i))"

text \<open>
  \<^verbatim>\<open>int(x)\<close> on ASCII text or bytes: optional surrounding whitespace, an optional sign,
  then decimal digits, where single underscores may separate digits. On a \<^verbatim>\<open>str\<close>
  Python also accepts non-ASCII whitespace and decimal digits, and recent versions limit
  the number of digits; neither is modelled.
\<close>

definition is_space :: "nat \<Rightarrow> bool" where
  "is_space c \<longleftrightarrow> c = 32 \<or> (9 \<le> c \<and> c \<le> 13)"

definition is_digit :: "nat \<Rightarrow> bool" where
  "is_digit c \<longleftrightarrow> 48 \<le> c \<and> c \<le> 57"

fun digits_value :: "int \<Rightarrow> nat list \<Rightarrow> int option" where
  "digits_value acc [] = Some acc"
| "digits_value acc [c] = (if is_digit c then Some (acc * 10 + int (c - 48)) else None)"
| "digits_value acc (c # d # cs) =
     (if is_digit c then digits_value (acc * 10 + int (c - 48)) (d # cs)
      else if c = 95 \<and> is_digit d then digits_value acc (d # cs)
      else None)"

definition py_int :: "nat list \<Rightarrow> error + int" where
  "py_int s =
     (let t = rev (dropWhile is_space (rev (dropWhile is_space s)));
          neg = (case t of c # _ \<Rightarrow> c = 45 | [] \<Rightarrow> False);
          u = (case t of c # cs \<Rightarrow> if c = 43 \<or> c = 45 then cs else t | [] \<Rightarrow> t)
      in case u of
           [] \<Rightarrow> Inl ValueError
         | c # cs \<Rightarrow>
            if is_digit c then
              (case digits_value 0 u of
                 None \<Rightarrow> Inl ValueError
               | Some v \<Rightarrow> Inr (if neg then - v else v))
            else Inl ValueError)"

subsection \<open>Sending\<close>

text \<open>
  \<^verbatim>\<open>f"{len(message):<{self.header_size}}"\<close>: the length in decimal, padded with spaces
  on the right to ten characters (longer lengths are not truncated).
\<close>

definition message_header :: "nat \<Rightarrow> nat list" where
  "message_header n = digits n @ replicate (header_size - length (digits n)) 32"

text \<open>\<^verbatim>\<open>message_header + message\<close>, the bytes that \<^verbatim>\<open>send_data\<close> hands to \<^verbatim>\<open>sendall\<close>.\<close>

definition frame_of :: "nat list \<Rightarrow> nat list" where
  "frame_of message = message_header (length message) @ message"

text \<open>
  \<^verbatim>\<open>send_data\<close>. \<^verbatim>\<open>data.encode()\<close> stands before the \<^verbatim>\<open>try\<close>, so its error is not
  caught there.
\<close>

definition send_data :: "ChatApp \<Rightarrow> pystr \<Rightarrow> error + ChatApp" where
  "send_data app data =
     (case client_socket app of
        Some sock \<Rightarrow>
          (case utf8_encode data of
             Inl e \<Rightarrow> Inl e
           | Inr message \<Rightarrow>
              if failing sock then Inr (update_chat app (SendingError OSError))
              else Inr (app\<lparr>client_socket :=
                          Some (sock\<lparr>written := written sock @ [frame_of message]\<rparr>)\<rparr>))
      | None \<Rightarrow> Inr (update_chat app NotConnected))"

definition send_public_key :: "ChatApp \<Rightarrow> error + ChatApp" where
  "send_public_key app =
     (case (client_socket app, key_pair (rsa app)) of
        (Some sock, Some kp) \<Rightarrow>
          (case send_data app (str ''KEYS:'' @ str_of_int (N (public_key kp)) @ str '',''
                               @ str_of_int (E (public_key kp))) of
             Inl e \<Rightarrow> Inl e
           | Inr app' \<Rightarrow> Inr (update_chat app' PublicKeySent))
      | _ \<Rightarrow> Inr (update_chat app CannotSendPublicKey))"

text \<open>
  \<^verbatim>\<open>send_message\<close>, with the contents of the two entry widgets as arguments and
  \<^verbatim>\<open>json.dumps\<close> as a parameter. An empty nickname becomes \<^verbatim>\<open>"Anonymous"\<close>.
\<close>

definition send_message :: "(json \<Rightarrow> pystr) \<Rightarrow> ChatApp \<Rightarrow> pystr \<Rightarrow> pystr \<Rightarrow> error + ChatApp" where
  "send_message dumps app message nickname_entry =
     (case (other_public_key app, key_pair (rsa app)) of
        (Some opk, Some kp) \<Rightarrow>
          (case sign (rsa app) message of
             Inl e \<Rightarrow> Inl e
           | Inr signature \<Rightarrow>
              (case encrypt message opk of
                 Inl e \<Rightarrow> Inl e
               | Inr encrypted_message \<Rightarrow>
                  (let nickname = (if nickname_entry = [] then str ''Anonymous'' else nickname_entry)
                   in case send_data app
                        (dumps (JObj [(str ''nickname'', JStr nickname),
                                      (str ''message'', JList (map JInt encrypted_message)),
                                      (str ''signature'', JInt signature)])) of
                        Inl e \<Rightarrow> Inl e
                      | Inr app' \<Rightarrow> Inr (update_chat app' (You message)))))
      | _ \<Rightarrow> Inr (update_chat app KeysNotExchanged))"

subsection \<open>Receiving\<close>

text \<open>\<^verbatim>\<open>s.split(sep, 1)\<close>: \<open>None\<close> when the separator does not occur (a one-element list).\<close>

fun split1 :: "nat \<Rightarrow> pystr \<Rightarrow> (pystr \<times> pystr) option" where
  "split1 sep [] = None"
| "split1 sep (c # cs) =
     (if c = sep then Some ([], cs)
      else (case split1 sep cs of None \<Rightarrow> None | Some (a, b) \<Rightarrow> Some (c # a, b)))"

definition startswith :: "pystr \<Rightarrow> pystr \<Rightarrow> bool" where
  "startswith s pre \<longleftrightarrow> take (length pre) s = pre"

text \<open>\<^verbatim>\<open>received_data[key]\<close> on whatever \<^verbatim>\<open>json.loads\<close> returned.\<close>

definition subscript :: "json \<Rightarrow> pystr \<Rightarrow> error + json" where
  "subscript v key =
     (case v of
        JObj kvs \<Rightarrow> (case map_of kvs key of None \<Rightarrow> Inl KeyError | Some x \<Rightarrow> Inr x)
      | _ \<Rightarrow> Inl TypeError)"

definition get_nickname :: "json \<Rightarrow> json" where
  "get_nickname v =
     (case v of
        JObj kvs \<Rightarrow> (case map_of kvs (str ''nickname'') of None \<Rightarrow> JStr (str ''Unknown'') | Some x \<Rightarrow> x)
      | _ \<Rightarrow> JStr (str ''Unknown''))"

text \<open>The \<^verbatim>\<open>try\<close> block of the \<^verbatim>\<open>KEYS:\<close> branch; every error in it is a \<open>ValueError\<close>.\<close>

definition handle_keys :: "ChatApp \<Rightarrow> pystr \<Rightarrow> error + ChatApp" where
  "handle_keys app key_data =
     (case split1 44 key_data of
        None \<Rightarrow> Inl ValueError
      | Some (N_str, E_str) \<Rightarrow>
         (case py_int N_str of
            Inl e \<Rightarrow> Inl e
          | Inr n \<Rightarrow>
             (case py_int E_str of
                Inl e \<Rightarrow> Inl e
              | Inr e \<Rightarrow>
                 (let app1 = update_chat (app\<lparr>other_public_key := Some \<lparr>N = n, E = e\<rparr>\<rparr>)
                               ReceivedPublicKey
                  in if \<not> is_client app1 then send_public_key app1 else Inr app1))))"

text \<open>The \<^verbatim>\<open>try\<close> block of the other branch, after \<^verbatim>\<open>json.loads\<close> has succeeded.\<close>

definition handle_envelope :: "ChatApp \<Rightarrow> json \<Rightarrow> error + ChatApp" where
  "handle_envelope app received_data =
     (case subscript received_data (str ''message'') of
        Inl e \<Rightarrow> Inl e
      | Inr encrypted_message \<Rightarrow>
         (case subscript received_data (str ''signature'') of
            Inl e \<Rightarrow> Inl e
          | Inr signature \<Rightarrow>
             (let nickname = get_nickname received_data
              in case decrypt (rsa app) encrypted_message of
                   Inl e \<Rightarrow> Inl e
                 | Inr decrypted_message \<Rightarrow>
                    (case verify decrypted_message signature (other_public_key app) of
                       Inl e \<Rightarrow> Inl e
                     | Inr ok \<Rightarrow>
                        if ok then Inr (update_chat app (ChatLine nickname decrypted_message))
                        else Inr (update_chat app SignatureVerificationFailed)))))"

text \<open>
  \<^verbatim>\<open>handle_received_message\<close>, with \<^verbatim>\<open>json.loads\<close> as a parameter (\<open>None\<close> is its
  \<^verbatim>\<open>JSONDecodeError\<close>). The first branch catches \<open>ValueError\<close> only, and every error of
  its block is raised before a field is assigned; any other exception would leave the
  method. The second
  branch catches every exception.
\<close>

definition handle_received_message ::
    "(pystr \<Rightarrow> json option) \<Rightarrow> ChatApp \<Rightarrow> pystr \<Rightarrow> error + ChatApp" where
  "handle_received_message loads app message =
     (if startswith message (str ''KEYS:'') then
        (case handle_keys app (drop 5 message) of
           Inl ValueError \<Rightarrow> Inr (update_chat app (PublicKeyError ValueError))
         | Inl e \<Rightarrow> Inl e
         | Inr app' \<Rightarrow> Inr app')
      else
        (case loads message of
           None \<Rightarrow> Inr (update_chat app JSONDecodingError)
         | Some received_data \<Rightarrow>
            (case handle_envelope app received_data of
               Inl e \<Rightarrow> Inr (update_chat app (MessageHandlingError e))
             | Inr app' \<Rightarrow> Inr app')))"

text \<open>
  The receive loop. Each element of the chunk list is what one \<^verbatim>\<open>sock.recv(16)\<close>
  returned; when the list is used up the loop is \<open>Blocked\<close> in \<^verbatim>\<open>recv\<close> with its three
  local variables. An exception ends the loop (\<open>Stopped\<close>); \<^verbatim>\<open>listen_for_messages\<close>
  then reports it and leaves. The handler is a parameter; the program passes
  \<^verbatim>\<open>handle_received_message\<close>.
\<close>

datatype 'a listening =
    Blocked 'a "nat list" bool int
  | Stopped 'a error

fun listen_loop ::
    "('a \<Rightarrow> pystr \<Rightarrow> error + 'a) \<Rightarrow> 'a \<Rightarrow> nat list \<Rightarrow> bool \<Rightarrow> int \<Rightarrow> nat list list \<Rightarrow> 'a listening" where
  "listen_loop handler app full_message new_msg msg_length [] =
     Blocked app full_message new_msg msg_length"
| "listen_loop handler app full_message new_msg msg_length (message # reads) =
     (case (if new_msg then py_int (take header_size message) else Inr msg_length) of
        Inl e \<Rightarrow> Stopped app e
      | Inr msg_length' \<Rightarrow>
         (let full_message' = full_message @ message
          in if int (length full_message') - int header_size = msg_length' then
               (case utf8_decode (drop header_size full_message') of
                  Inl e \<Rightarrow> Stopped app e
                | Inr body \<Rightarrow>
                   (case handler app body of
                      Inl e \<Rightarrow> Stopped app e
                    | Inr app' \<Rightarrow> listen_loop handler app' [] True msg_length' reads))
             else listen_loop handler app full_message' False msg_length' reads))"

definition listen_for_messages ::
    "(pystr \<Rightarrow> json option) \<Rightarrow> ChatApp \<Rightarrow> nat list list \<Rightarrow> ChatApp listening" where
  "listen_for_messages loads app reads =
     (case listen_loop (handle_received_message loads) app [] True 0 reads of
        Stopped app' e \<Rightarrow> Stopped (update_chat app' (ReceivingError e)) e
      | blocked \<Rightarrow> blocked)"

lemma gcd_src_gcd: "0 \<le> a \<Longrightarrow> 0 \<le> b \<Longrightarrow> gcd_src a b = gcd a b"
proof (induction a b rule: gcd_src.induct)
  case (1 a b)
  show ?case
  proof (cases "b = 0")
    case True
    with 1 show ?thesis by (simp add: gcd_src.simps)
  next
    case False
    with 1 have "gcd_src b (a mod b) = gcd b (a mod b)" by simp
    with False show ?thesis
      by (subst gcd_src.simps) (simp add: gcd.commute gcd_red_int [symmetric])
  qed
qed

lemma xgcd_loop_inv:
  "prevx * a0 + prevy * b0 = a \<Longrightarrow> x * a0 + y * b0 = b \<Longrightarrow>
   xgcd_loop a b prevx x prevy y = (g, u, v) \<Longrightarrow> u * a0 + v * b0 = g \<and> g = gcd_src a b"
proof (induction a b prevx x prevy y rule: xgcd_loop.induct)
  case (1 a b prevx x prevy y)
  show ?case
  proof (cases "b = 0")
    case True
    with 1 show ?thesis by (simp add: xgcd_loop.simps gcd_src.simps)
  next
    case False
    have step: "xgcd_loop b (a mod b) x (prevx - a div b * x) y (prevy - a div b * y) = (g, u, v)"
      using "1.prems"(3) False by (subst (asm) xgcd_loop.simps) (simp add: Let_def)
    have inv: "(prevx - a div b * x) * a0 + (prevy - a div b * y) * b0 = a mod b"
    proof -
      have "(prevx - a div b * x) * a0 + (prevy - a div b * y) * b0
            = (prevx * a0 + prevy * b0) - a div b * (x * a0 + y * b0)"
        by (simp add: algebra_simps)
      also have "\<dots> = a - a div b * b" using "1.prems" by simp
      also have "\<dots> = a mod b" by (simp add: minus_div_mult_eq_mod)
      finally show ?thesis .
    qed
    have "gcd_src a b = gcd_src b (a mod b)"
      using False by (subst gcd_src.simps) simp
    with "1.IH" [OF False refl "1.prems"(2) inv step]
    show ?thesis by simp
  qed
qed

lemma xgcd_bezout: "xgcd a b = (g, u, v) \<Longrightarrow> u * a + v * b = g \<and> g = gcd_src a b"
  unfolding xgcd_def by (rule xgcd_loop_inv [of 1 a 0 b a 0 1 b]) simp_all

lemma modinv_correct:
  assumes "modinv a m = Inr d" and "1 < m"
  shows "(a * d) mod m = 1" and "0 \<le> d" and "d < m"
proof -
  obtain g u v where x: "xgcd a m = (g, u, v)" by (cases "xgcd a m") auto
  with assms have g: "g = 1" and d: "d = u mod m"
    by (auto simp: modinv_def split: if_splits)
  from xgcd_bezout [OF x] g have "u * a + v * m = 1" by simp
  then have "a * u = 1 - v * m" by (simp add: algebra_simps)
  then have "(a * u) mod m = (1 - v * m) mod m" by simp
  also have "\<dots> = 1 mod m" by (metis mod_diff_right_eq mod_mult_self2_is_0 diff_zero)
  also have "\<dots> = 1" using assms(2) by simp
  finally have "(a * u) mod m = 1" .
  then show "(a * d) mod m = 1" unfolding d by (simp add: mod_mult_right_eq)
  show "0 \<le> d" "d < m" unfolding d using assms(2) by simp_all
qed

lemma modinv_total: "gcd_src a m = 1 \<Longrightarrow> \<exists>d. modinv a m = Inr d"
proof -
  assume g: "gcd_src a m = 1"
  obtain g' u v where x: "xgcd a m = (g', u, v)" by (cases "xgcd a m") auto
  from xgcd_bezout [OF x] g have "g' = 1" by simp
  with x show ?thesis by (simp add: modinv_def)
qed

lemma prime_number_divisors:
  assumes "prime_number p" "0 \<le> d" "d dvd p"
  shows "d = 1 \<or> d = p"
proof (rule ccontr)
  assume n: "\<not> (d = 1 \<or> d = p)"
  from assms have p: "1 < p" by (simp add: prime_number_def)
  with assms(3) have "d \<noteq> 0" by auto
  moreover from assms(3) p have "d \<le> p" by (simp add: zdvd_imp_le)
  ultimately have "d \<in> {2..<p}" using n assms(2) by auto
  with assms(1,3) show False by (auto simp: prime_number_def)
qed

lemma prime_number_coprime:
  assumes "prime_number p" "\<not> p dvd a"
  shows "coprime p a"
proof -
  have "gcd p a = 1 \<or> gcd p a = p"
    by (rule prime_number_divisors [OF assms(1)]) simp_all
  moreover have "gcd p a \<noteq> p" using assms(2) by (metis gcd_dvd2)
  ultimately show ?thesis by (simp add: coprime_iff_gcd_eq_1)
qed

lemma prime_number_dvd_mult:
  assumes "prime_number p" "p dvd a * b"
  shows "p dvd a \<or> p dvd b"
  using assms prime_number_coprime coprime_dvd_mult_right_iff by blast

lemma prime_number_dvd_choose:
  assumes "prime_number p" "0 < k" "k < nat p"
  shows "p dvd int (nat p choose k)"
proof -
  from assms have p: "1 < p" by (simp add: prime_number_def)
  obtain n where n: "nat p = Suc n" using p by (cases "nat p") auto
  obtain j where j: "k = Suc j" using assms(2) by (cases k) auto
  have "k * (nat p choose k) = nat p * (n choose j)"
    unfolding n j by (rule Suc_times_binomial)
  then have "int (k * (nat p choose k)) = int (nat p * (n choose j))"
    by (rule arg_cong)
  then have "int k * int (nat p choose k) = int (nat p) * int (n choose j)"
    by (simp only: of_nat_mult)
  then have "int k * int (nat p choose k) = p * int (n choose j)"
    using p by simp
  then have "p dvd int k * int (nat p choose k)" by simp
  moreover have "\<not> p dvd int k"
    using assms(2,3) p by (auto dest!: zdvd_imp_le)
  ultimately show ?thesis using prime_number_dvd_mult [OF assms(1)] by blast
qed

lemma fermat_step:
  assumes "prime_number p"
  shows "p dvd (a + 1) ^ nat p - a ^ nat p - (1::int)"
proof -
  from assms have p: "1 < p" by (simp add: prime_number_def)
  define n where "n = nat p"
  have n: "0 < n" using p by (simp add: n_def)
  define f where "f k = int (n choose k) * a ^ k" for k
  have "(a + 1) ^ n = (\<Sum>k\<le>n. f k)"
    by (simp add: binomial_ring f_def)
  also have "{..n} = insert 0 (insert n {1..<n})" using n by auto
  also have "(\<Sum>k\<in>insert 0 (insert n {1..<n}). f k) = f 0 + f n + (\<Sum>k\<in>{1..<n}. f k)"
    using n by simp
  finally have "(a + 1) ^ n - a ^ n - 1 = (\<Sum>k\<in>{1..<n}. f k)"
    by (simp add: f_def)
  moreover have "p dvd (\<Sum>k\<in>{1..<n}. f k)"
  proof (rule dvd_sum)
    fix k assume "k \<in> {1..<n}"
    then have "p dvd int (nat p choose k)"
      using prime_number_dvd_choose [OF assms, of k] by (simp add: n_def)
    then show "p dvd f k" by (simp add: f_def n_def)
  qed
  ultimately show ?thesis by (simp add: n_def)
qed

lemma fermat_nat:
  assumes "prime_number p"
  shows "p dvd int a ^ nat p - int a"
proof (induction a)
  case 0
  from assms have "nat p \<noteq> 0" by (simp add: prime_number_def)
  then show ?case by (simp add: power_0_left)
next
  case (Suc a)
  have "p dvd ((int a + 1) ^ nat p - int a ^ nat p - 1) + (int a ^ nat p - int a)"
    using fermat_step [OF assms, of "int a"] Suc by (rule dvd_add)
  moreover have "((int a + 1) ^ nat p - int a ^ nat p - 1) + (int a ^ nat p - int a)
        = (int a + 1) ^ nat p - (int a + 1)"
    by simp
  moreover have "int (Suc a) = int a + 1" by simp
  ultimately show ?case by (simp only:)
qed

lemma fermat_little:
  assumes "prime_number p" "0 \<le> a" "\<not> p dvd a"
  shows "a ^ nat (p - 1) mod p = 1"
proof -
  from assms have p: "1 < p" by (simp add: prime_number_def)
  have "p dvd a ^ nat p - a" using fermat_nat [OF assms(1), of "nat a"] assms(2) by simp
  moreover have "a ^ nat p - a = a * (a ^ nat (p - 1) - 1)"
  proof -
    have "nat p = Suc (nat (p - 1))" using p by simp
    then show ?thesis by (simp add: algebra_simps)
  qed
  ultimately have "p dvd a ^ nat (p - 1) - 1"
    using prime_number_dvd_mult [OF assms(1)] assms(3) by auto
  then have "a ^ nat (p - 1) mod p = 1 mod p"
    by (metis mod_eq_dvd_iff)
  with p show ?thesis by simp
qed

lemma prime_power_cycle:
  assumes "prime_number p" "0 \<le> m" and k: "(p - 1) dvd (k - 1)" "1 \<le> k"
  shows "p dvd m ^ nat k - m"
proof (cases "p dvd m")
  case True
  have "nat k \<noteq> 0" using k by simp
  then have "m dvd m ^ nat k" by (cases "nat k") auto
  with True show ?thesis by (meson dvd_diff dvd_trans)
next
  case False
  from assms have p: "1 < p" by (simp add: prime_number_def)
  obtain j where j: "k - 1 = (p - 1) * j" using k(1) by (auto simp: dvd_def)
  have j0: "0 \<le> j"
  proof (rule ccontr)
    assume "\<not> 0 \<le> j"
    then have "j < 0" by simp
    then have "(p - 1) * j < 0" using p by (simp add: mult_pos_neg)
    with j k(2) show False by simp
  qed
  have "k = (p - 1) * j + 1" using j by simp
  then have "nat k = nat (p - 1) * nat j + 1"
    using j0 p by (simp add: nat_mult_distrib nat_add_distrib)
  then have "m ^ nat k = (m ^ nat (p - 1)) ^ nat j * m"
    by (simp add: power_mult power_add)
  then have "m ^ nat k mod p = ((m ^ nat (p - 1)) ^ nat j mod p * m) mod p"
    by (simp add: mod_mult_left_eq)
  also have "(m ^ nat (p - 1)) ^ nat j mod p = (m ^ nat (p - 1) mod p) ^ nat j mod p"
    by (simp add: power_mod)
  also have "\<dots> = 1" using fermat_little [OF assms(1,2) False] p by simp
  finally have "m ^ nat k mod p = m mod p" by simp
  then show ?thesis by (simp add: mod_eq_dvd_iff)
qed

lemma rsa_cycle:
  assumes pq: "prime_number p" "prime_number q" "p \<noteq> q"
    and ed: "(e * d) mod lcm (p - 1) (q - 1) = 1" "0 \<le> e" "0 \<le> d"
    and m: "0 \<le> m" "m < p * q"
  shows "(m ^ nat e mod (p * q)) ^ nat d mod (p * q) = m"
proof -
  from pq have p: "1 < p" and q: "1 < q" by (simp_all add: prime_number_def)
  define L where "L = lcm (p - 1) (q - 1)"
  have k0: "0 \<le> e * d" using ed by simp
  have "e * d \<noteq> 0" using ed(1) by auto
  with k0 have k1: "1 \<le> e * d" by linarith
  have "L \<noteq> 1"
  proof
    assume "L = 1"
    then have "(e * d) mod L = 0" by simp
    with ed(1) show False unfolding L_def by simp
  qed
  moreover have "0 \<le> L" unfolding L_def by simp
  moreover have "L \<noteq> 0" unfolding L_def using p q by simp
  ultimately have "1 < L" by simp
  then have "(e * d) mod L = 1 mod L" using ed(1) unfolding L_def by simp
  then have Ldvd: "L dvd e * d - 1" by (simp add: mod_eq_dvd_iff)
  have "(p - 1) dvd L" "(q - 1) dvd L" unfolding L_def by simp_all
  with Ldvd have dv: "(p - 1) dvd e * d - 1" "(q - 1) dvd e * d - 1"
    by (blast intro: dvd_trans)+
  have "p dvd m ^ nat (e * d) - m" "q dvd m ^ nat (e * d) - m"
    using prime_power_cycle [OF pq(1) m(1) dv(1) k1] prime_power_cycle [OF pq(2) m(1) dv(2) k1]
    by simp_all
  moreover have "coprime p q"
  proof (rule prime_number_coprime [OF pq(1)])
    show "\<not> p dvd q"
      using prime_number_divisors [OF pq(2), of p] p pq(3) by auto
  qed
  ultimately have "p * q dvd m ^ nat (e * d) - m" by (rule divides_mult)
  then have "m ^ nat (e * d) mod (p * q) = m mod (p * q)" by (simp add: mod_eq_dvd_iff)
  also have "\<dots> = m" using m by simp
  finally have "m ^ nat (e * d) mod (p * q) = m" .
  moreover have "(m ^ nat e mod (p * q)) ^ nat d mod (p * q) = m ^ nat (e * d) mod (p * q)"
    using ed(2,3) by (simp add: power_mod nat_mult_distrib power_mult)
  ultimately show ?thesis by simp
qed

lemma candidate_bounds:
  assumes "0 < len" "0 \<le> p0" "p0 < 2 ^ nat len"
  shows "2 ^ nat (len - 1) \<le> candidate len p0" "candidate len p0 < 2 ^ nat len" "odd (candidate len p0)"
proof -
  have n: "nat len = Suc (nat (len - 1))" using assms(1) by simp
  have lt: "(2::int) ^ nat (len - 1) < 2 ^ nat len" unfolding n by simp
  have "(0::int) < 2 ^ nat (len - 1)" by simp
  then have one: "(1::int) < 2 ^ nat len" unfolding n power_Suc by linarith
  have A: "(2::int) ^ nat (len - 1) OR 1 < 2 ^ nat len"
    by (rule OR_upper) (use lt one in simp_all)
  show "candidate len p0 < 2 ^ nat len"
    unfolding candidate_def push_bit_of_1 by (rule OR_upper [OF assms(2,3) A])
  have "(2::int) ^ nat (len - 1) \<le> 2 ^ nat (len - 1) OR (1 OR p0)"
    by (rule or_greater_eq) (use assms(2) in simp)
  then show "2 ^ nat (len - 1) \<le> candidate len p0"
    unfolding candidate_def push_bit_of_1 by (simp add: ac_simps)
  show "odd (candidate len p0)" unfolding candidate_def by (simp only: even_or_iff) simp
qed

lemma getrandbits_range: "getrandbits k g = (p0, g1) \<Longrightarrow> 0 \<le> p0 \<and> p0 < 2 ^ k \<and> g1 = stl g"
  by (auto simp: getrandbits_def simp flip: of_nat_power intro: pos_mod_bound)

lemma attempt_props:
  assumes "0 < len" "attempt len g = (p, ok, g2)"
  shows "2 ^ nat (len - 1) \<le> p" "p < 2 ^ nat len" "odd p" "is_prime p 128 (stl g) = (ok, g2)"
proof -
  obtain p0 g1 where r: "getrandbits (nat len) g = (p0, g1)" by (cases "getrandbits (nat len) g") auto
  from getrandbits_range [OF r] have p0: "0 \<le> p0" "p0 < 2 ^ nat len" "g1 = stl g" by auto
  from assms(2) r have p: "p = candidate len p0" and ip: "is_prime (candidate len p0) 128 g1 = (ok, g2)"
    by (auto simp: attempt_def split: prod.splits)
  show "2 ^ nat (len - 1) \<le> p" "p < 2 ^ nat len" "odd p"
    unfolding p using candidate_bounds [OF assms(1) p0(1,2)] by auto
  show "is_prime p 128 (stl g) = (ok, g2)" using ip p p0(3) by simp
qed

lemma generate_prime_number_unfold:
  "0 < len \<Longrightarrow> generate_prime_number len g =
     (case attempt len g of (p, ok, g2) \<Rightarrow>
        if ok then Some (Inr (p, g2)) else generate_prime_number len g2)"
proof -
  assume len: "0 < len"
  obtain p0 g1 where r: "getrandbits (nat len) g = (p0, g1)" by force
  obtain ok g2 where i: "is_prime (candidate len p0) 128 g1 = (ok, g2)" by force
  have nl: "\<not> len \<le> 0" using len by simp
  show ?thesis by (subst generate_prime_number.simps) (simp add: attempt_def r i nl)
qed

lemma generate_prime_number_after:
  assumes "0 < len" "\<forall>i<n. \<not> fst (snd (attempt len (after_attempts i len g)))"
  shows "generate_prime_number len g = generate_prime_number len (after_attempts n len g)"
  using assms(2)
proof (induction n arbitrary: g)
  case 0
  show ?case by simp
next
  case (Suc n)
  from Suc.prems have first: "\<not> fst (snd (attempt len g))" by (auto dest: spec [of _ 0])
  have rest: "\<forall>i<n. \<not> fst (snd (attempt len (after_attempts i len (snd (snd (attempt len g))))))"
    using Suc.prems by (auto dest: spec [of _ "Suc i" for i])
  obtain p ok g2 where a: "attempt len g = (p, ok, g2)" by (cases "attempt len g") auto
  have "generate_prime_number len g = generate_prime_number len (snd (snd (attempt len g)))"
    using first by (subst generate_prime_number_unfold [OF assms(1)]) (simp add: a)
  also have "\<dots> = generate_prime_number len (after_attempts n len (snd (snd (attempt len g))))"
    by (rule Suc.IH [OF rest])
  finally show ?case by simp
qed

lemma generate_prime_number_returns:
  assumes "0 < len" "fst (snd (attempt len (after_attempts n len g)))"
  shows "\<exists>p g'. generate_prime_number len g = Some (Inr (p, g'))"
  using assms(2)
proof (induction n arbitrary: g rule: less_induct)
  case (less n)
  show ?case
  proof (cases "\<exists>i<n. fst (snd (attempt len (after_attempts i len g)))")
    case True
    then obtain i where "i < n" "fst (snd (attempt len (after_attempts i len g)))" by blast
    then show ?thesis by (rule less.IH)
  next
    case False
    then have eq: "generate_prime_number len g = generate_prime_number len (after_attempts n len g)"
      by (intro generate_prime_number_after [OF assms(1)]) simp
    obtain p ok g2 where a: "attempt len (after_attempts n len g) = (p, ok, g2)"
      by (cases "attempt len (after_attempts n len g)") auto
    with less.prems have "generate_prime_number len (after_attempts n len g) = Some (Inr (p, g2))"
      by (subst generate_prime_number_unfold [OF assms(1)]) simp
    with eq show ?thesis by simp
  qed
qed

lemma generate_prime_number_sound:
  assumes "generate_prime_number len g = Some r"
  shows "(len \<le> 0 \<and> r = Inl ValueError) \<or>
         (0 < len \<and> (\<exists>n p g'. r = Inr (p, g') \<and> attempt len (after_attempts n len g) = (p, True, g')))"
    (is "?P len g r")
proof (rule generate_prime_number.raw_induct [where P = ?P, OF _ assms])
  fix f len g r
  assume IH: "\<And>len g r. f len g = Some r \<Longrightarrow> ?P len g r"
    and step: "(if len \<le> 0 then Some (Inl ValueError)
      else case getrandbits (nat len) g of
           (p0, g1) \<Rightarrow>
             case is_prime (candidate len p0) 128 g1 of
             (ok, g2) \<Rightarrow>
               if ok then Some (Inr (candidate len p0, g2))
               else f len g2) = Some r"
  show "?P len g r"
  proof (cases "len \<le> 0")
    case True
    with step show ?thesis by simp
  next
    case False
    obtain p ok g2 where a: "attempt len g = (p, ok, g2)" by (cases "attempt len g") auto
    show ?thesis
    proof (cases ok)
      case True
      with step a False have "r = Inr (p, g2)" by (auto simp: attempt_def split: prod.splits)
      with a True False show ?thesis by (intro disjI2) (auto intro!: exI [of _ 0])
    next
      case no: False
      with step a False have "f len g2 = Some r" by (auto simp: attempt_def split: prod.splits)
      from IH [OF this] False obtain n p' g' where
        "r = Inr (p', g')" "attempt len (after_attempts n len g2) = (p', True, g')" by auto
      with a False show ?thesis by (intro disjI2) (auto intro!: exI [of _ "Suc n"])
    qed
  qed
qed

lemma pow_mod_eq: "pow_mod b e m = b ^ nat e mod m"
proof (induction b e m rule: pow_mod.induct)
  case (1 b e m)
  show ?case
  proof (cases "e \<le> 0")
    case True
    then show ?thesis by (subst pow_mod.simps) simp
  next
    case False
    define k where "k = nat (e div 2)"
    have IH: "pow_mod b (e div 2) m = b ^ k mod m" using 1 False by (simp add: k_def)
    have "(b ^ k mod m) * (b ^ k mod m) mod m = (b ^ k * b ^ k) mod m"
      by (simp add: mod_mult_eq)
    also have "b ^ k * b ^ k = b ^ (2 * k)"
      by (simp add: power_add [symmetric] mult_2)
    finally have sq: "(b ^ k mod m) * (b ^ k mod m) mod m = b ^ (2 * k) mod m" .
    show ?thesis
    proof (cases "e mod 2 = 0")
      case True
      then have "e = 2 * (e div 2)" by presburger
      then have "nat e = nat (2 * (e div 2))" by simp
      also have "\<dots> = 2 * k" unfolding k_def by (simp add: nat_mult_distrib)
      finally have "nat e = 2 * k" .
      then show ?thesis using False True IH sq by (subst pow_mod.simps) (simp add: Let_def)
    next
      case odd: False
      then have "e = 2 * (e div 2) + 1" by presburger
      then have "nat e = nat (2 * (e div 2) + 1)" by simp
      also have "\<dots> = Suc (2 * k)" unfolding k_def using False
        by (simp add: nat_mult_distrib nat_add_distrib)
      finally have e: "nat e = Suc (2 * k)" .
      have "b * (b ^ (2 * k) mod m) mod m = b ^ Suc (2 * k) mod m"
        by (simp add: mod_mult_right_eq)
      then show ?thesis using False odd IH sq e by (subst pow_mod.simps) (simp add: Let_def)
    qed
  qed
qed

lemma rounds_accept:
  "base_passes n s r (2 + int c mod (n - 3)) \<Longrightarrow> rounds k n s r (replicate k c @- g) = (True, g)"
  by (induction k) (simp_all add: randrange_def)

lemma rounds_reject:
  "0 < k \<Longrightarrow> \<not> base_passes n s r (2 + int c mod (n - 3)) \<Longrightarrow>
   rounds k n s r (c ## g) = (False, g)"
  by (cases k) (simp_all add: randrange_def)

lemma decompose_24: "decompose 0 24 = (3, 3)" by code_simp
lemma decompose_16: "decompose 0 16 = (4, 1)" by code_simp
lemma decompose_22: "decompose 0 22 = (Suc 0, 11)" by code_simp
lemma decompose_20: "decompose 0 20 = (2, 5)" by code_simp
lemma passes_25: "base_passes 25 3 3 7" by code_simp
lemma passes_17: "base_passes 17 4 1 7" by code_simp
lemma passes_23: "base_passes 23 (Suc 0) 11 7" by code_simp
lemma fails_21: "\<not> base_passes 21 2 5 4" by code_simp

lemma is_prime_25: "is_prime 25 128 (replicate 128 5 @- g) = (True, g)"
  by (simp add: is_prime_def decompose_24 rounds_accept passes_25)

lemma is_prime_17: "is_prime 17 128 (replicate 128 5 @- g) = (True, g)"
  by (simp add: is_prime_def decompose_16 rounds_accept passes_17)

lemma is_prime_23: "is_prime 23 128 (replicate 128 5 @- g) = (True, g)"
  by (simp add: is_prime_def decompose_22 rounds_accept passes_23)

lemma is_prime_21: "is_prime 21 128 (2 ## g) = (False, g)"
  by (simp add: is_prime_def decompose_20 rounds_reject fails_21)

lemma cand_25: "candidate 5 8 = 25" by code_simp
lemma cand_17: "candidate 5 0 = 17" by code_simp
lemma cand_23: "candidate 5 6 = 23" by code_simp
lemma cand_21: "candidate 5 4 = 21" by code_simp

lemma attempt_25: "attempt 5 (8 ## (replicate 128 5 @- g)) = (25, True, g)"
  by (simp add: attempt_def getrandbits_def cand_25 is_prime_25)

lemma attempt_17: "attempt 5 (0 ## (replicate 128 5 @- g)) = (17, True, g)"
  by (simp add: attempt_def getrandbits_def cand_17 is_prime_17)

lemma attempt_23: "attempt 5 (6 ## (replicate 128 5 @- g)) = (23, True, g)"
  by (simp add: attempt_def getrandbits_def cand_23 is_prime_23)

lemma attempt_21: "attempt 5 (4 ## 2 ## g) = (21, False, g)"
  by (simp add: attempt_def getrandbits_def cand_21 is_prime_21)

lemma is_prime_accepts_gt1: "is_prime n k g = (True, g') \<Longrightarrow> 1 < n"
  by (auto simp: is_prime_def split: if_splits)

lemma randrange_range:
  assumes "lo < hi" "randrange lo hi g = (x, g')"
  shows "lo \<le> x \<and> x < hi \<and> g' = stl g"
proof -
  have "0 \<le> int (shd g) mod (hi - lo)" "int (shd g) mod (hi - lo) < hi - lo"
    using assms(1) by simp_all
  with assms(2) show ?thesis by (auto simp: randrange_def)
qed

lemma find_e_sound:
  assumes "find_e totient g = Some r"
  shows "2 ^ 16 \<le> fst r \<and> fst r < 2 ^ 17 \<and> gcd_src (fst r) totient = 1" (is "?P totient g r")
proof (rule find_e.raw_induct [where P = ?P, OF _ assms])
  fix f totient g r
  assume IH: "\<And>totient g r. f totient g = Some r \<Longrightarrow> ?P totient g r"
    and step: "(case randrange (2 ^ 16) (2 ^ 17) g of
           (e, g') \<Rightarrow> if gcd_src e totient = 1 then Some (e, g') else f totient g') = Some r"
  obtain e g' where rr: "randrange (2 ^ 16) (2 ^ 17) g = (e, g')" by force
  from randrange_range [OF _ rr] have e: "2 ^ 16 \<le> e" "e < 2 ^ 17" by simp_all
  show "?P totient g r"
  proof (cases "gcd_src e totient = 1")
    case True
    with step rr have "r = (e, g')" by simp
    with e True show ?thesis by simp
  next
    case False
    with step rr have "f totient g' = Some r" by simp
    then show ?thesis by (rule IH)
  qed
qed

lemma find_e_first:
  "gcd_src (2 ^ 16 + int (shd g) mod 2 ^ 16) totient = 1 \<Longrightarrow>
   find_e totient g = Some (2 ^ 16 + int (shd g) mod 2 ^ 16, stl g)"
  by (subst find_e.simps) (simp add: randrange_def)

lemma lcm_src_lcm:
  assumes "0 < a" "0 < b"
  shows "lcm_src a b = Inr (lcm a b)"
proof -
  have g: "gcd_src a b = gcd a b" using assms by (intro gcd_src_gcd) simp_all
  have "gcd a b \<noteq> 0" using assms by simp
  then show ?thesis unfolding lcm_src_def g by (simp add: lcm_altdef_int abs_mult)
qed

lemma attempt_accepted:
  assumes "0 < len" "attempt len g = (p, True, g')"
  shows "odd p" "2 ^ nat (len - 1) \<le> p" "p < 2 ^ nat len" "\<exists>g0. is_prime p 128 g0 = (True, g')" "3 \<le> p"
proof -
  note a = attempt_props [OF assms]
  show "odd p" "2 ^ nat (len - 1) \<le> p" "p < 2 ^ nat len" "\<exists>g0. is_prime p 128 g0 = (True, g')"
    using a by blast+
  from is_prime_accepts_gt1 [OF a(4)] a(3) show "3 \<le> p" by presburger
qed

text \<open>what every key pair that the loop returns satisfies\<close>

lemma generate_keys_loop_sound:
  assumes "generate_keys_loop L g = Some r"
  shows "\<forall>l g'. r = Inr (l, g') \<longrightarrow>
           0 < L div 2 \<and>
           (\<forall>x\<in>{kg_p l, kg_q l}. odd x \<and> 3 \<le> x \<and> 2 ^ nat (L div 2 - 1) \<le> x \<and> x < 2 ^ nat (L div 2)
              \<and> (\<exists>g0 g1. is_prime x 128 g0 = (True, g1))) \<and>
           kg_p l \<noteq> kg_q l \<and> kg_n l = kg_p l * kg_q l \<and>
           kg_totient l = lcm (kg_p l - 1) (kg_q l - 1) \<and>
           2 ^ 16 \<le> kg_e l \<and> kg_e l < 2 ^ 17 \<and> gcd (kg_e l) (kg_totient l) = 1 \<and>
           (kg_e l * kg_d l) mod kg_totient l = 1 \<and> 0 \<le> kg_d l \<and> kg_d l < kg_totient l"
    (is "?P L g r")
proof (rule generate_keys_loop.raw_induct [where P = ?P, OF _ assms])
  fix f L g r
  assume IH: "\<And>L g r. f L g = Some r \<Longrightarrow> ?P L g r"
    and step: "(case generate_prime_number (L div 2) g of None \<Rightarrow> None
           | Some (Inl err) \<Rightarrow> Some (Inl err)
           | Some (Inr (p, g1)) \<Rightarrow>
               case generate_prime_number (L div 2) g1 of None \<Rightarrow> None
               | Some (Inl err) \<Rightarrow> Some (Inl err)
               | Some (Inr (q, g2)) \<Rightarrow>
                   if p \<noteq> q
                   then case lcm_src (p - 1) (q - 1) of
                        Inl err \<Rightarrow> Some (Inl err)
                        | Inr totient \<Rightarrow>
                            case find_e totient g2 of None \<Rightarrow> None
                            | Some (e, g3) \<Rightarrow>
                                case modinv e totient of
                                Inl err \<Rightarrow> Some (Inl err)
                                | Inr d \<Rightarrow>
                                    Some
                                     (Inr
 (\<lparr>kg_p = p, kg_q = q, kg_n = p * q, kg_totient = totient, kg_e = e,
     kg_d = d\<rparr>,
  g3))
                   else f L g2) = Some r"
  show "?P L g r"
  proof (intro allI impI)
    fix l g' assume r: "r = Inr (l, g')"
    from step r obtain p g1 where gp: "generate_prime_number (L div 2) g = Some (Inr (p, g1))"
      by (auto split: option.splits sum.splits)
    from step r gp obtain q g2 where gq: "generate_prime_number (L div 2) g1 = Some (Inr (q, g2))"
      by (auto split: option.splits sum.splits)
    show "0 < L div 2 \<and>
           (\<forall>x\<in>{kg_p l, kg_q l}. odd x \<and> 3 \<le> x \<and> 2 ^ nat (L div 2 - 1) \<le> x \<and> x < 2 ^ nat (L div 2)
              \<and> (\<exists>g0 g1. is_prime x 128 g0 = (True, g1))) \<and>
           kg_p l \<noteq> kg_q l \<and> kg_n l = kg_p l * kg_q l \<and>
           kg_totient l = lcm (kg_p l - 1) (kg_q l - 1) \<and>
           2 ^ 16 \<le> kg_e l \<and> kg_e l < 2 ^ 17 \<and> gcd (kg_e l) (kg_totient l) = 1 \<and>
           (kg_e l * kg_d l) mod kg_totient l = 1 \<and> 0 \<le> kg_d l \<and> kg_d l < kg_totient l"
    proof (cases "p = q")
      case True
      with step gp gq have "f L g2 = Some r" by simp
      from IH [OF this] r show ?thesis by blast
    next
      case False
      from generate_prime_number_sound [OF gp] obtain n1 where
        len: "0 < L div 2" and a1: "attempt (L div 2) (after_attempts n1 (L div 2) g) = (p, True, g1)"
        by auto
      from generate_prime_number_sound [OF gq] obtain n2 where
        a2: "attempt (L div 2) (after_attempts n2 (L div 2) g1) = (q, True, g2)"
        by auto
      note P = attempt_accepted [OF len a1] and Q = attempt_accepted [OF len a2]
      have pq: "0 < p - 1" "0 < q - 1" using P(5) Q(5) by simp_all
      have tot: "lcm_src (p - 1) (q - 1) = Inr (lcm (p - 1) (q - 1))" by (rule lcm_src_lcm [OF pq])
      define t where "t = lcm (p - 1) (q - 1)"
      from step gp gq False tot obtain e g3 where fe: "find_e t g2 = Some (e, g3)"
        unfolding t_def by (auto split: option.splits)
      from step gp gq False tot fe r obtain d where md: "modinv e t = Inr d"
        and l: "l = \<lparr>kg_p = p, kg_q = q, kg_n = p * q, kg_totient = t, kg_e = e, kg_d = d\<rparr>"
        unfolding t_def by (auto split: sum.splits)
      from find_e_sound [OF fe] have e: "2 ^ 16 \<le> e" "e < 2 ^ 17" "gcd_src e t = 1" by simp_all
      have "p - 1 dvd t" unfolding t_def by simp
      moreover have "0 < t" unfolding t_def using pq by (simp add: lcm_pos_int)
      ultimately have "p - 1 \<le> t" by (rule zdvd_imp_le)
      with P(5) have t1: "1 < t" by simp
      have "gcd e t = 1" using e(3) gcd_src_gcd [of e t] e(1) t1 by simp
      moreover note modinv_correct [OF md t1]
      ultimately show ?thesis
        unfolding l using len P Q False e(1,2) t_def by auto
    qed
  qed
qed

lemma generate_prime_number_first:
  "0 < len \<Longrightarrow> attempt len g = (p, True, g') \<Longrightarrow> generate_prime_number len g = Some (Inr (p, g'))"
  by (subst generate_prime_number_unfold) simp_all

lemma lcm_src_16_22: "lcm_src 16 22 = Inr 176" by code_simp
lemma lcm_src_24_16: "lcm_src 24 16 = Inr 48" by code_simp
lemma gcd_src_176: "gcd_src 65537 176 = 1" by code_simp
lemma gcd_src_48: "gcd_src 65537 48 = 1" by code_simp
lemma modinv_176: "modinv 65537 176 = Inr 65" by code_simp
lemma modinv_48: "modinv 65537 48 = Inr 17" by code_simp

lemma find_e_sconst_176: "find_e 176 (sconst 65537) = Some (65537, sconst 65537)"
  using find_e_first [of "sconst 65537" 176] by (simp add: gcd_src_176)

lemma find_e_sconst_48: "find_e 48 (sconst 65537) = Some (65537, sconst 65537)"
  using find_e_first [of "sconst 65537" 48] by (simp add: gcd_src_48)

lemma keygen_run_prime:
  "generate_keys_loop 10 draws_prime =
     Some (Inr (\<lparr>kg_p = 17, kg_q = 23, kg_n = 391, kg_totient = 176, kg_e = 65537, kg_d = 65\<rparr>,
                sconst 65537))"
proof -
  have p: "generate_prime_number 5 draws_prime = Some (Inr (17, 6 ## (replicate 128 5 @- sconst 65537)))"
    unfolding draws_prime_def by (rule generate_prime_number_first [OF _ attempt_17]) simp
  have q: "generate_prime_number 5 (6 ## (replicate 128 5 @- sconst 65537)) = Some (Inr (23, sconst 65537))"
    by (rule generate_prime_number_first [OF _ attempt_23]) simp
  show ?thesis
    by (subst generate_keys_loop.simps)
       (simp add: p q lcm_src_16_22 find_e_sconst_176 modinv_176)
qed

lemma keygen_run_composite:
  "generate_keys_loop 10 draws_composite =
     Some (Inr (\<lparr>kg_p = 25, kg_q = 17, kg_n = 425, kg_totient = 48, kg_e = 65537, kg_d = 17\<rparr>,
                sconst 65537))"
proof -
  have p: "generate_prime_number 5 draws_composite = Some (Inr (25, 0 ## (replicate 128 5 @- sconst 65537)))"
    unfolding draws_composite_def by (rule generate_prime_number_first [OF _ attempt_25]) simp
  have q: "generate_prime_number 5 (0 ## (replicate 128 5 @- sconst 65537)) = Some (Inr (17, sconst 65537))"
    by (rule generate_prime_number_first [OF _ attempt_17]) simp
  show ?thesis
    by (subst generate_keys_loop.simps)
       (simp add: p q lcm_src_24_16 find_e_sconst_48 modinv_48)
qed

lemma prime_17: "prime_number 17" by code_simp
lemma prime_23: "prime_number 23" by code_simp
lemma not_prime_25: "\<not> prime_number 25" by code_simp

lemma draws_forever_unfold: "draws_forever = 4 ## 2 ## draws_forever"
  unfolding draws_forever_def by (subst cycle_decomp) simp_all

lemma attempt_forever: "attempt 5 draws_forever = (21, False, draws_forever)"
  by (subst draws_forever_unfold) (rule attempt_21)

lemma after_attempts_forever: "after_attempts n 5 draws_forever = draws_forever"
  by (induction n) (simp_all add: attempt_forever)

text \<open>
  Claim C9, as amended. For a bit length of at least 2 and any random source: whenever
  \<^verbatim>\<open>generate_prime_number\<close> returns, the result is odd, has exactly \<open>len\<close> bits (top
  bit set) and was accepted by the 128-round Miller-Rabin test; it returns exactly when
  some pass through its loop draws a candidate that the test accepts, and it never raises.
  It does not return for every random source: see \<open>generate_prime_number_never_returns\<close>.
\<close>

theorem generate_prime_number_result:
  assumes "2 \<le> len"
  shows "(\<forall>p g'. generate_prime_number len g = Some (Inr (p, g')) \<longrightarrow>
            odd p \<and> 2 ^ nat (len - 1) \<le> p \<and> p < 2 ^ nat len \<and>
            (\<exists>g0. is_prime p 128 g0 = (True, g'))) \<and>
         ((\<exists>p g'. generate_prime_number len g = Some (Inr (p, g'))) \<longleftrightarrow>
            (\<exists>n. fst (snd (attempt len (after_attempts n len g))))) \<and>
         (\<forall>e. generate_prime_number len g \<noteq> Some (Inl e))"
proof (intro conjI allI impI)
  have len: "0 < len" using assms by simp
  {
    fix p g' assume r: "generate_prime_number len g = Some (Inr (p, g'))"
    from generate_prime_number_sound [OF r] obtain n where
      a: "attempt len (after_attempts n len g) = (p, True, g')" by auto
    from attempt_accepted [OF len a]
    show "odd p" "2 ^ nat (len - 1) \<le> p" "p < 2 ^ nat len" "\<exists>g0. is_prime p 128 g0 = (True, g')"
      by blast+
  }
  show "(\<exists>p g'. generate_prime_number len g = Some (Inr (p, g'))) \<longleftrightarrow>
            (\<exists>n. fst (snd (attempt len (after_attempts n len g))))"
  proof
    assume "\<exists>p g'. generate_prime_number len g = Some (Inr (p, g'))"
    then obtain p g' where r: "generate_prime_number len g = Some (Inr (p, g'))" by blast
    from generate_prime_number_sound [OF r] obtain n where
      "attempt len (after_attempts n len g) = (p, True, g')" by auto
    then have "fst (snd (attempt len (after_attempts n len g)))" by simp
    then show "\<exists>n. fst (snd (attempt len (after_attempts n len g)))" ..
  next
    assume "\<exists>n. fst (snd (attempt len (after_attempts n len g)))"
    then obtain n where "fst (snd (attempt len (after_attempts n len g)))" ..
    then show "\<exists>p g'. generate_prime_number len g = Some (Inr (p, g'))"
      by (rule generate_prime_number_returns [OF len])
  qed
  fix e show "generate_prime_number len g \<noteq> Some (Inl e)"
    using generate_prime_number_sound [of len g "Inl e"] len by auto
qed

text \<open>The run with \<open>draws_prime\<close> for 5 bits returns 17.\<close>

theorem generate_prime_number_result_witness:
  "(2::int) \<le> 5 \<and>
   generate_prime_number 5 draws_prime = Some (Inr (17, 6 ## (replicate 128 5 @- sconst 65537))) \<and>
   odd (17::int) \<and> 2 ^ nat (5 - 1) \<le> (17::int) \<and> (17::int) < 2 ^ nat 5 \<and>
   (\<exists>g0. is_prime 17 128 g0 = (True, 6 ## (replicate 128 5 @- sconst 65537))) \<and>
   (\<exists>n. fst (snd (attempt 5 (after_attempts n 5 draws_prime))))"
proof -
  have h: "(2::int) \<le> 5" by simp
  have r: "generate_prime_number 5 draws_prime = Some (Inr (17, 6 ## (replicate 128 5 @- sconst 65537)))"
    unfolding draws_prime_def by (rule generate_prime_number_first [OF _ attempt_17]) simp
  note t = generate_prime_number_result [OF h, of draws_prime]
  from t r have props: "odd (17::int) \<and> 2 ^ nat (5 - 1) \<le> (17::int) \<and> (17::int) < 2 ^ nat 5 \<and>
      (\<exists>g0. is_prime 17 128 g0 = (True, 6 ## (replicate 128 5 @- sconst 65537)))"
    by blast
  from t r have ex: "\<exists>n. fst (snd (attempt 5 (after_attempts n 5 draws_prime)))"
    by blast
  from h r props ex show ?thesis by (intro conjI) blast+
qed

text \<open>
  With \<open>draws_forever\<close> each candidate for 5 bits is 21, which the base 4 rejects, so
  the loop of \<^verbatim>\<open>generate_prime_number\<close> never ends.
\<close>

theorem generate_prime_number_never_returns:
  "generate_prime_number 5 draws_forever = None"
proof (cases "generate_prime_number 5 draws_forever")
  case None
  then show ?thesis .
next
  case (Some r)
  from generate_prime_number_sound [OF Some] obtain n p g' where
    "attempt 5 (after_attempts n 5 draws_forever) = (p, True, g')" by auto
  then show ?thesis by (simp add: after_attempts_forever attempt_forever)
qed

lemma pow3_nonneg: "m \<noteq> 0 \<Longrightarrow> 0 \<le> e \<Longrightarrow> pow3 b e m = Inr (b ^ nat e mod m)"
  by (simp add: pow3_def pow_mod_eq)

lemma traverse_map: "(\<And>x. x \<in> set xs \<Longrightarrow> f x = Inr (h x)) \<Longrightarrow> traverse f xs = Inr (map h xs)"
  by (induction xs) simp_all

lemma traverse_Inr: "traverse f xs = Inr ys \<longleftrightarrow> list_all2 (\<lambda>x y. f x = Inr y) xs ys"
proof (induction xs arbitrary: ys)
  case Nil
  show ?case by auto
next
  case (Cons a xs)
  show ?case
    by (cases "f a"; cases "traverse f xs") (auto simp: list_all2_Cons1 Cons.IH [symmetric])
qed

lemma generate_keys_run:
  "generate_keys R g = Some (Inr (R', g')) \<longleftrightarrow>
   (\<exists>l. generate_keys_loop (key_length R) g = Some (Inr (l, g')) \<and>
        R' = R\<lparr>key_pair := Some (keypair_of l)\<rparr>)"
  by (auto simp: generate_keys_def split: option.splits sum.splits)

text \<open>
  Claim C3, as amended. Every key pair that \<^verbatim>\<open>generate_keys\<close> stores has a modulus
  \<open>N = p * q\<close> for two distinct odd integers of exactly \<open>key_length div 2\<close> bits, each
  accepted by the 128-round Miller-Rabin test (probable primes, not necessarily primes);
  the totient is \<open>lcm (p - 1) (q - 1)\<close>, the public exponent lies in \<open>[2^16, 2^17)\<close>
  and is coprime to the totient, and \<open>(E * D) mod totient = 1\<close>.
\<close>

theorem generate_keys_postcondition:
  assumes "generate_keys R g = Some (Inr (R', g'))"
  shows "\<exists>l kp. generate_keys_loop (key_length R) g = Some (Inr (l, g')) \<and>
           key_pair R' = Some kp \<and> kp = keypair_of l \<and>
           N (public_key kp) = kg_p l * kg_q l \<and> kg_p l \<noteq> kg_q l \<and>
           (\<forall>x\<in>{kg_p l, kg_q l}.
              odd x \<and> 2 ^ nat (key_length R div 2 - 1) \<le> x \<and> x < 2 ^ nat (key_length R div 2) \<and>
              (\<exists>g0 g1. is_prime x 128 g0 = (True, g1))) \<and>
           kg_totient l = lcm (kg_p l - 1) (kg_q l - 1) \<and>
           2 ^ 16 \<le> E (public_key kp) \<and> E (public_key kp) < 2 ^ 17 \<and>
           gcd (E (public_key kp)) (kg_totient l) = 1 \<and>
           (E (public_key kp) * D (private_key kp)) mod kg_totient l = 1"
proof -
  from assms obtain l where l: "generate_keys_loop (key_length R) g = Some (Inr (l, g'))"
    and r: "R' = R\<lparr>key_pair := Some (keypair_of l)\<rparr>"
    by (auto simp: generate_keys_run)
  from generate_keys_loop_sound [OF l] have
    "(\<forall>x\<in>{kg_p l, kg_q l}. odd x \<and> 3 \<le> x \<and> 2 ^ nat (key_length R div 2 - 1) \<le> x \<and>
          x < 2 ^ nat (key_length R div 2) \<and> (\<exists>g0 g1. is_prime x 128 g0 = (True, g1)))"
    "kg_p l \<noteq> kg_q l" "kg_n l = kg_p l * kg_q l" "kg_totient l = lcm (kg_p l - 1) (kg_q l - 1)"
    "2 ^ 16 \<le> kg_e l" "kg_e l < 2 ^ 17" "gcd (kg_e l) (kg_totient l) = 1"
    "(kg_e l * kg_d l) mod kg_totient l = 1"
    by blast+
  with l r show ?thesis by (intro exI [of _ l] exI [of _ "keypair_of l"]) (simp add: keypair_of_def)
qed

lemma generate_keys_prime:
  "generate_keys (RSA_init 10) draws_prime =
     Some (Inr (\<lparr>key_length = 10, key_pair =
                   Some \<lparr>public_key = \<lparr>N = 391, E = 65537\<rparr>, private_key = \<lparr>D = 65\<rparr>\<rparr>\<rparr>, sconst 65537))"
  by (simp add: generate_keys_def RSA_init_def keygen_run_prime keypair_of_def)

lemma generate_keys_composite:
  "generate_keys (RSA_init 10) draws_composite =
     Some (Inr (\<lparr>key_length = 10, key_pair =
                   Some \<lparr>public_key = \<lparr>N = 425, E = 65537\<rparr>, private_key = \<lparr>D = 17\<rparr>\<rparr>\<rparr>, sconst 65537))"
  by (simp add: generate_keys_def RSA_init_def keygen_run_composite keypair_of_def)

text \<open>The run with \<open>draws_prime\<close> and a key length of 10: \<open>p = 17\<close>, \<open>q = 23\<close>.\<close>

theorem generate_keys_postcondition_witness:
  "generate_keys (RSA_init 10) draws_prime =
     Some (Inr (\<lparr>key_length = 10, key_pair =
                   Some \<lparr>public_key = \<lparr>N = 391, E = 65537\<rparr>, private_key = \<lparr>D = 65\<rparr>\<rparr>\<rparr>, sconst 65537)) \<and>
   (391::int) = 17 * 23 \<and> (17::int) \<noteq> 23 \<and>
   odd (17::int) \<and> 2 ^ nat (10 div 2 - 1) \<le> (17::int) \<and> (17::int) < 2 ^ nat (10 div 2) \<and>
   (\<exists>g0 g1. is_prime 17 128 g0 = (True, g1)) \<and>
   odd (23::int) \<and> 2 ^ nat (10 div 2 - 1) \<le> (23::int) \<and> (23::int) < 2 ^ nat (10 div 2) \<and>
   (\<exists>g0 g1. is_prime 23 128 g0 = (True, g1)) \<and>
   (176::int) = lcm (17 - 1) (23 - 1) \<and> gcd (65537::int) 176 = 1 \<and> (65537 * 65) mod (176::int) = 1"
proof -
  note run = generate_keys_prime
  have kl: "key_length (RSA_init 10) = 10" by (simp add: RSA_init_def)
  from generate_keys_postcondition [OF run, unfolded kl]
  obtain l kp where l: "generate_keys_loop 10 draws_prime = Some (Inr (l, sconst 65537))"
    and kp: "kp = keypair_of l"
    and n: "N (public_key kp) = kg_p l * kg_q l"
    and b: "\<forall>x\<in>{kg_p l, kg_q l}.
              odd x \<and> 2 ^ nat (10 div 2 - 1) \<le> x \<and> x < 2 ^ nat (10 div 2) \<and>
              (\<exists>g0 g1. is_prime x 128 g0 = (True, g1))"
    and t: "kg_totient l = lcm (kg_p l - 1) (kg_q l - 1)"
    and g: "gcd (E (public_key kp)) (kg_totient l) = 1"
    and m: "(E (public_key kp) * D (private_key kp)) mod kg_totient l = 1"
    by (elim exE conjE) (rule that, assumption+)
  from l have leq: "l = \<lparr>kg_p = 17, kg_q = 23, kg_n = 391, kg_totient = 176, kg_e = 65537, kg_d = 65\<rparr>"
    by (simp add: keygen_run_prime)
  have kpe: "kp = \<lparr>public_key = \<lparr>N = 391, E = 65537\<rparr>, private_key = \<lparr>D = 65\<rparr>\<rparr>"
    unfolding kp leq by (simp add: keypair_of_def)
  from b have b17: "odd (17::int) \<and> 2 ^ nat (10 div 2 - 1) \<le> (17::int) \<and> (17::int) < 2 ^ nat (10 div 2) \<and>
      (\<exists>g0 g1. is_prime 17 128 g0 = (True, g1))"
    and b23: "odd (23::int) \<and> 2 ^ nat (10 div 2 - 1) \<le> (23::int) \<and> (23::int) < 2 ^ nat (10 div 2) \<and>
      (\<exists>g0 g1. is_prime 23 128 g0 = (True, g1))"
    unfolding leq by simp_all
  from t have t': "(176::int) = lcm (17 - 1) (23 - 1)" unfolding leq by (simp only: keygen_locals.simps)
  from g have g': "gcd (65537::int) 176 = 1" unfolding leq kpe by (simp only: keygen_locals.simps PublicKey.simps RSAKeyPair.simps)
  from m have m': "(65537 * 65) mod (176::int) = 1" unfolding leq kpe
    by (simp only: keygen_locals.simps PublicKey.simps PrivateKey.simps RSAKeyPair.simps)
  have a: "(391::int) = 17 * 23" "(17::int) \<noteq> 23" by simp_all
  from run a b17 b23 t' g' m' show ?thesis by (intro conjI) (elim conjE, assumption)+
qed

lemma not_prime_85: "\<not> prime_number 85" by code_simp

lemma not_two_primes_425: "\<not> (\<exists>p q. prime_number p \<and> prime_number q \<and> p \<noteq> q \<and> (425::int) = p * q)"
proof
  assume "\<exists>p q. prime_number p \<and> prime_number q \<and> p \<noteq> q \<and> (425::int) = p * q"
  then obtain p q where p: "prime_number p" and q: "prime_number q" and n: "425 = p * q" by blast
  from p have p1: "1 < p" by (simp add: prime_number_def)
  have "p dvd p * q" by simp
  with n have d: "p dvd 5 * (5 * 17)" by simp
  then have "p dvd 5 \<or> p dvd 17"
    using prime_number_dvd_mult [OF p, of 5 "5 * 17"] prime_number_dvd_mult [OF p, of 5 17] by blast
  then have "p \<le> 17" by (auto dest: zdvd_imp_le)
  with p1 have pin: "p \<in> {2..17}" by simp
  have "\<forall>p\<in>{2..17::int}. p dvd 425 \<longrightarrow> p = 5 \<or> p = 17" by code_simp
  with pin d have "p = 5 \<or> p = 17" by simp
  moreover have "p * q div p = q" using p1 by simp
  with n have "q = 425 div p" by simp
  ultimately have "q = 85 \<or> q = 25" by auto
  with q not_prime_85 not_prime_25 show False by blast
qed

text \<open>
  The run with \<open>draws_composite\<close> and a key length of 10 returns a key pair whose
  \<open>p\<close> is 25: the modulus 425 is not a product of two distinct primes.
\<close>

theorem generate_keys_composite_modulus:
  "generate_keys_loop 10 draws_composite =
     Some (Inr (\<lparr>kg_p = 25, kg_q = 17, kg_n = 425, kg_totient = 48, kg_e = 65537, kg_d = 17\<rparr>,
                sconst 65537)) \<and>
   generate_keys (RSA_init 10) draws_composite =
     Some (Inr (\<lparr>key_length = 10, key_pair =
                   Some \<lparr>public_key = \<lparr>N = 425, E = 65537\<rparr>, private_key = \<lparr>D = 17\<rparr>\<rparr>\<rparr>, sconst 65537)) \<and>
   \<not> prime_number 25 \<and>
   \<not> (\<exists>p q. prime_number p \<and> prime_number q \<and> p \<noteq> q \<and> (425::int) = p * q)"
  using keygen_run_composite generate_keys_composite not_prime_25 not_two_primes_425 by blast

lemma traverse_map_inv:
  "(\<And>x. x \<in> set xs \<Longrightarrow> f (g x) = Inr x) \<Longrightarrow> traverse f (map g xs) = Inr xs"
  by (induction xs) simp_all

text \<open>The arithmetic facts about a key pair whose two factors are prime.\<close>

lemma keypair_cycle:
  assumes loop: "generate_keys_loop L g = Some (Inr (l, g'))"
    and pq: "prime_number (kg_p l)" "prime_number (kg_q l)"
    and m: "0 \<le> m" "m < kg_n l"
  shows "pow_mod (pow_mod m (kg_e l) (kg_n l)) (kg_d l) (kg_n l) = m"
    and "pow_mod (pow_mod m (kg_d l) (kg_n l)) (kg_e l) (kg_n l) = m"
proof -
  from generate_keys_loop_sound [OF loop] have
    ne: "kg_p l \<noteq> kg_q l" and n: "kg_n l = kg_p l * kg_q l"
    and t: "kg_totient l = lcm (kg_p l - 1) (kg_q l - 1)"
    and e: "2 ^ 16 \<le> kg_e l" and ed: "(kg_e l * kg_d l) mod kg_totient l = 1" and d: "0 \<le> kg_d l"
    by blast+
  have e0: "0 \<le> kg_e l" using e by simp
  have de: "(kg_d l * kg_e l) mod lcm (kg_p l - 1) (kg_q l - 1) = 1"
    using ed t by (simp add: mult.commute)
  have ed': "(kg_e l * kg_d l) mod lcm (kg_p l - 1) (kg_q l - 1) = 1"
    using ed t by simp
  show "pow_mod (pow_mod m (kg_e l) (kg_n l)) (kg_d l) (kg_n l) = m"
    unfolding pow_mod_eq n using rsa_cycle [OF pq ne ed' e0 d m(1)] m(2) n by simp
  show "pow_mod (pow_mod m (kg_d l) (kg_n l)) (kg_e l) (kg_n l) = m"
    unfolding pow_mod_eq n using rsa_cycle [OF pq ne de d e0 m(1)] m(2) n by simp
qed

lemma keypair_fields:
  assumes loop: "generate_keys_loop L g = Some (Inr (l, g'))"
  shows "0 < kg_n l" "0 \<le> kg_e l" "0 \<le> kg_d l"
proof -
  from generate_keys_loop_sound [OF loop] have
    b: "\<forall>x\<in>{kg_p l, kg_q l}. 3 \<le> x" and n: "kg_n l = kg_p l * kg_q l"
    and e: "2 ^ 16 \<le> kg_e l" and d: "0 \<le> kg_d l"
    by blast+
  from b have "0 < kg_p l" "0 < kg_q l" by simp_all
  then show "0 < kg_n l" unfolding n by (rule mult_pos_pos)
  show "0 \<le> kg_e l" using e by simp
  show "0 \<le> kg_d l" by (rule d)
qed

lemma roundtrip_core:
  assumes loop: "generate_keys_loop L g = Some (Inr (l, g'))"
    and pq: "prime_number (kg_p l)" "prime_number (kg_q l)"
    and small: "\<forall>c\<in>set plaintext. int c < kg_n l"
    and valid: "\<forall>c\<in>set plaintext. c \<le> 0x10FFFF"
    and kp: "key_pair R' = Some (keypair_of l)"
  shows "encrypt plaintext (public_key (keypair_of l)) =
           Inr (map (\<lambda>c. pow_mod (int c) (kg_e l) (kg_n l)) plaintext)"
    and "decrypt R' (JList (map JInt (map (\<lambda>c. pow_mod (int c) (kg_e l) (kg_n l)) plaintext))) =
           Inr plaintext"
proof -
  note f = keypair_fields [OF loop]
  have n0: "kg_n l \<noteq> 0" using f(1) by simp
  show "encrypt plaintext (public_key (keypair_of l)) =
           Inr (map (\<lambda>c. pow_mod (int c) (kg_e l) (kg_n l)) plaintext)"
    unfolding encrypt_def
    by (rule traverse_map) (simp add: keypair_of_def pow3_def n0 f(2))
  have unit: "decrypt_unit (keypair_of l) (JInt (pow_mod (int c) (kg_e l) (kg_n l))) = Inr c"
    if c: "c \<in> set plaintext" for c
  proof -
    have "int c < kg_n l" "c \<le> 0x10FFFF" using c small valid by auto
    with keypair_cycle(1) [OF loop pq, of "int c"] show ?thesis
      by (simp add: decrypt_unit_def as_int_def keypair_of_def pow3_def n0 f(3) chr_def)
  qed
  have "traverse (decrypt_unit (keypair_of l))
          (map (\<lambda>c. JInt (pow_mod (int c) (kg_e l) (kg_n l))) plaintext) = Inr plaintext"
    by (rule traverse_map_inv) (rule unit)
  then show "decrypt R' (JList (map JInt (map (\<lambda>c. pow_mod (int c) (kg_e l) (kg_n l)) plaintext))) =
           Inr plaintext"
    by (simp add: decrypt_def kp iterate_def comp_def)
qed

text \<open>
  Claim C1, as amended. For every key pair that \<^verbatim>\<open>generate_keys\<close> stores and whose two
  factors \<open>p\<close> and \<open>q\<close> are prime, and every plaintext string whose code points are below
  the modulus, encryption under the public key succeeds and decrypting its result returns
  the plaintext.
\<close>

theorem encrypt_decrypt_roundtrip:
  assumes "generate_keys R g = Some (Inr (R', g'))"
    and "generate_keys_loop (key_length R) g = Some (Inr (l, g'))"
    and "prime_number (kg_p l)" and "prime_number (kg_q l)"
    and "\<forall>c\<in>set plaintext. int c < N (public_key (keypair_of l))"
    and "\<forall>c\<in>set plaintext. c \<le> 0x10FFFF"
  shows "key_pair R' = Some (keypair_of l) \<and>
         (\<exists>units. encrypt plaintext (public_key (keypair_of l)) = Inr units \<and>
                  decrypt R' (JList (map JInt units)) = Inr plaintext)"
proof -
  from assms(1,2) have kp: "key_pair R' = Some (keypair_of l)"
    by (auto simp: generate_keys_run)
  have small: "\<forall>c\<in>set plaintext. int c < kg_n l" using assms(5) by (simp add: keypair_of_def)
  from roundtrip_core [OF assms(2,3,4) small assms(6) kp] kp show ?thesis by blast
qed

lemma pow3_391: "pow3 72 65537 391 = Inr 123" "pow3 105 65537 391 = Inr 292"
  "pow3 123 65 391 = Inr 72" "pow3 292 65 391 = Inr 105"
  by code_simp+

lemma pow3_425: "pow3 65 65537 425 = Inr 150" "pow3 150 17 425 = Inr 150"
  by code_simp+

lemma encrypt_Hi: "encrypt [72, 105] \<lparr>N = 391, E = 65537\<rparr> = Inr [123, 292]"
  by (simp add: encrypt_def pow3_391)

text \<open>
  The key pair of the run with \<open>draws_prime\<close> (\<open>p = 17\<close>, \<open>q = 23\<close>) and the plaintext
  \<^verbatim>\<open>"Hi"\<close>.
\<close>

theorem encrypt_decrypt_roundtrip_witness:
  "generate_keys (RSA_init 10) draws_prime =
     Some (Inr (\<lparr>key_length = 10, key_pair =
                   Some \<lparr>public_key = \<lparr>N = 391, E = 65537\<rparr>, private_key = \<lparr>D = 65\<rparr>\<rparr>\<rparr>, sconst 65537)) \<and>
   prime_number 17 \<and> prime_number 23 \<and> (72::int) < 391 \<and> (105::int) < 391 \<and>
   encrypt [72, 105] \<lparr>N = 391, E = 65537\<rparr> = Inr [123, 292] \<and>
   decrypt \<lparr>key_length = 10, key_pair =
              Some \<lparr>public_key = \<lparr>N = 391, E = 65537\<rparr>, private_key = \<lparr>D = 65\<rparr>\<rparr>\<rparr>
     (JList [JInt 123, JInt 292]) = Inr [72, 105]"
proof -
  define l where "l = \<lparr>kg_p = 17, kg_q = 23, kg_n = 391, kg_totient = 176, kg_e = 65537, kg_d = 65\<rparr>"
  have kl: "key_length (RSA_init 10) = 10" by (simp add: RSA_init_def)
  have loop: "generate_keys_loop (key_length (RSA_init 10)) draws_prime = Some (Inr (l, sconst 65537))"
    unfolding kl l_def by (rule keygen_run_prime)
  have p: "prime_number (kg_p l)" and q: "prime_number (kg_q l)"
    unfolding l_def by (simp_all add: prime_17 prime_23)
  have kp: "keypair_of l = \<lparr>public_key = \<lparr>N = 391, E = 65537\<rparr>, private_key = \<lparr>D = 65\<rparr>\<rparr>"
    unfolding l_def by (simp add: keypair_of_def)
  have small: "\<forall>c\<in>set [72, 105]. int c < N (public_key (keypair_of l))"
    unfolding kp by simp
  have valid: "\<forall>c\<in>set [72, 105::nat]. c \<le> 0x10FFFF" by simp
  from encrypt_decrypt_roundtrip [OF generate_keys_prime loop p q small valid]
  obtain units where u: "encrypt [72, 105] (public_key (keypair_of l)) = Inr units"
    and d: "decrypt \<lparr>key_length = 10, key_pair =
              Some \<lparr>public_key = \<lparr>N = 391, E = 65537\<rparr>, private_key = \<lparr>D = 65\<rparr>\<rparr>\<rparr>
            (JList (map JInt units)) = Inr [72, 105]"
    by (elim exE conjE) (rule that, assumption+)
  from u have "units = [123, 292]" unfolding kp by (simp add: encrypt_Hi)
  with d have d': "decrypt \<lparr>key_length = 10, key_pair =
              Some \<lparr>public_key = \<lparr>N = 391, E = 65537\<rparr>, private_key = \<lparr>D = 65\<rparr>\<rparr>\<rparr>
            (JList [JInt 123, JInt 292]) = Inr [72, 105]" by simp
  have a: "(72::int) < 391" "(105::int) < 391" by simp_all
  from generate_keys_prime prime_17 prime_23 a encrypt_Hi d' show ?thesis
    by (intro conjI)
qed

text \<open>
  The key pair of the run with \<open>draws_composite\<close> (\<open>p = 25\<close>): the plaintext \<^verbatim>\<open>"A"\<close>
  (code point 65, below the modulus 425) is encrypted to 150 and decrypted to the
  character with code point 150.
\<close>

theorem roundtrip_fails_for_composite:
  "generate_keys (RSA_init 10) draws_composite =
     Some (Inr (\<lparr>key_length = 10, key_pair =
                   Some \<lparr>public_key = \<lparr>N = 425, E = 65537\<rparr>, private_key = \<lparr>D = 17\<rparr>\<rparr>\<rparr>, sconst 65537)) \<and>
   (65::int) < 425 \<and>
   encrypt [65] \<lparr>N = 425, E = 65537\<rparr> = Inr [150] \<and>
   decrypt \<lparr>key_length = 10, key_pair =
              Some \<lparr>public_key = \<lparr>N = 425, E = 65537\<rparr>, private_key = \<lparr>D = 17\<rparr>\<rparr>\<rparr>
     (JList [JInt 150]) = Inr [150] \<and>
   [150] \<noteq> [65::nat]"
proof -
  have e: "encrypt [65] \<lparr>N = 425, E = 65537\<rparr> = Inr [150]"
    by (simp add: encrypt_def pow3_425)
  have d: "decrypt \<lparr>key_length = 10, key_pair =
              Some \<lparr>public_key = \<lparr>N = 425, E = 65537\<rparr>, private_key = \<lparr>D = 17\<rparr>\<rparr>\<rparr>
     (JList [JInt 150]) = Inr [150]"
    by (simp add: decrypt_def iterate_def decrypt_unit_def as_int_def pow3_425 chr_def)
  have a: "(65::int) < 425" "[150] \<noteq> [65::nat]" by simp_all
  from generate_keys_composite a e d show ?thesis by (intro conjI)
qed

lemma words32_add_state: "words32 (add_state s t)"
  by (simp add: words32_def add_state_def split: prod.splits)

lemma words32_foldl: "words32 s \<Longrightarrow> words32 (foldl process_block s bs)"
  by (induction bs arbitrary: s) (simp_all add: process_block_def words32_add_state)

lemma words32_sha256: "words32 (sha256 m)"
  unfolding sha256_def by (rule words32_foldl) (simp add: words32_def H256_def)

lemma digest_int_range:
  assumes "words32 s"
  shows "0 \<le> digest_int s" "digest_int s < 2 ^ 256"
proof -
  obtain a b c d e f g h where s: "s = (a, b, c, d, e, f, g, h)"
    by (metis surj_pair)
  from assms have r: "0 \<le> a" "a < 2 ^ 32" "0 \<le> b" "b < 2 ^ 32" "0 \<le> c" "c < 2 ^ 32"
    "0 \<le> d" "d < 2 ^ 32" "0 \<le> e" "e < 2 ^ 32" "0 \<le> f" "f < 2 ^ 32" "0 \<le> g" "g < 2 ^ 32"
    "0 \<le> h" "h < 2 ^ 32"
    unfolding s words32_def by simp_all
  from r show "0 \<le> digest_int s" unfolding s digest_int_def by simp
  from r show "digest_int s < 2 ^ 256" unfolding s digest_int_def by simp
qed

lemma hash_int_range: "hash_int message = Inr h \<Longrightarrow> 0 \<le> h \<and> h < 2 ^ 256"
  using digest_int_range [OF words32_sha256]
  by (auto simp: hash_int_def split: sum.splits)

lemma pow_mod_less: "0 < m \<Longrightarrow> pow_mod b e m < m"
  by (simp add: pow_mod_eq)

lemma sign_verify_core:
  assumes loop: "generate_keys_loop L g = Some (Inr (l, g'))"
    and pq: "prime_number (kg_p l)" "prime_number (kg_q l)"
    and h: "hash_int message = Inr h"
    and kp: "key_pair R' = Some (keypair_of l)"
  shows "sign R' message = Inr (pow_mod h (kg_d l) (kg_n l))"
    and "verify message (JInt (pow_mod h (kg_d l) (kg_n l))) (Some (public_key (keypair_of l))) =
           Inr (h < kg_n l)"
proof -
  note f = keypair_fields [OF loop]
  have n0: "kg_n l \<noteq> 0" using f(1) by simp
  from hash_int_range [OF h] have h0: "0 \<le> h" by simp
  show "sign R' message = Inr (pow_mod h (kg_d l) (kg_n l))"
    by (simp add: sign_def kp h keypair_of_def pow3_def n0 f(3))
  have v: "verify message (JInt (pow_mod h (kg_d l) (kg_n l))) (Some (public_key (keypair_of l))) =
        Inr (h = pow_mod (pow_mod h (kg_d l) (kg_n l)) (kg_e l) (kg_n l))"
    by (simp add: verify_def h as_int_def keypair_of_def pow3_def n0 f(2))
  show "verify message (JInt (pow_mod h (kg_d l) (kg_n l))) (Some (public_key (keypair_of l))) =
           Inr (h < kg_n l)"
  proof (cases "h < kg_n l")
    case True
    with keypair_cycle(2) [OF loop pq h0] v show ?thesis by simp
  next
    case False
    have "pow_mod (pow_mod h (kg_d l) (kg_n l)) (kg_e l) (kg_n l) < kg_n l"
      by (rule pow_mod_less [OF f(1)])
    with False v show ?thesis by simp
  qed
qed

text \<open>
  Claim C2, as amended. For every key pair that \<^verbatim>\<open>generate_keys\<close> stores and whose two
  factors are prime, and every message that has a hash (UTF-8 can encode it), \<^verbatim>\<open>sign\<close>
  returns a signature, and \<^verbatim>\<open>verify\<close> of the message and that signature under the
  pair's own public key returns true exactly when the SHA-256 digest of the message, read
  as an integer, is below the modulus.
\<close>

theorem sign_verify:
  assumes "generate_keys R g = Some (Inr (R', g'))"
    and "generate_keys_loop (key_length R) g = Some (Inr (l, g'))"
    and "prime_number (kg_p l)" and "prime_number (kg_q l)"
    and "hash_int message = Inr h"
  shows "key_pair R' = Some (keypair_of l) \<and>
         (\<exists>signature. sign R' message = Inr signature \<and>
            verify message (JInt signature) (Some (public_key (keypair_of l))) =
              Inr (h < N (public_key (keypair_of l))))"
proof -
  from assms(1,2) have kp: "key_pair R' = Some (keypair_of l)"
    by (auto simp: generate_keys_run)
  have n: "N (public_key (keypair_of l)) = kg_n l" by (simp add: keypair_of_def)
  from sign_verify_core [OF assms(2,3,4,5) kp] kp show ?thesis unfolding n by blast
qed

text \<open>
  A modulus of at least \<open>2^256\<close> is above every digest: then the signature of every
  message that has a hash verifies. The factors of the default 2048-bit keys have 1024
  bits each.
\<close>

lemma sign_verify_large_modulus:
  assumes "generate_keys R g = Some (Inr (R', g'))"
    and "generate_keys_loop (key_length R) g = Some (Inr (l, g'))"
    and "prime_number (kg_p l)" and "prime_number (kg_q l)"
    and "hash_int message = Inr h"
    and "2 ^ 256 \<le> N (public_key (keypair_of l))"
  shows "\<exists>signature. sign R' message = Inr signature \<and>
            verify message (JInt signature) (Some (public_key (keypair_of l))) = Inr True"
proof -
  from assms(1,2) have kp: "key_pair R' = Some (keypair_of l)"
    by (auto simp: generate_keys_run)
  have n: "N (public_key (keypair_of l)) = kg_n l" by (simp add: keypair_of_def)
  from hash_int_range [OF assms(5)] assms(6) have "h < kg_n l" unfolding n by simp
  with sign_verify_core [OF assms(2,3,4,5) kp] show ?thesis by auto
qed

lemma key_bits_large_modulus:
  assumes "generate_keys_loop L g = Some (Inr (l, g'))" and "258 \<le> L"
  shows "2 ^ 256 \<le> kg_n l"
proof -
  from generate_keys_loop_sound [OF assms(1)] have
    b: "\<forall>x\<in>{kg_p l, kg_q l}. 2 ^ nat (L div 2 - 1) \<le> x" and n: "kg_n l = kg_p l * kg_q l"
    by blast+
  have "128 \<le> L div 2 - 1" using assms(2) by simp
  then have "128 \<le> nat (L div 2 - 1)" by simp
  then have "(2::int) ^ 128 \<le> 2 ^ nat (L div 2 - 1)" by (intro power_increasing) simp_all
  with b have "2 ^ 128 \<le> kg_p l" "2 ^ 128 \<le> kg_q l" by auto
  then have "2 ^ 128 * 2 ^ 128 \<le> kg_p l * kg_q l" by (intro mult_mono) simp_all
  then show ?thesis unfolding n by simp
qed

lemma hash_empty: "hash_int [] = Inr 102987336249554097029535212322581322789799900648198034993379397001115665086549"
  by code_simp

lemma hash_abc: "hash_int [97, 98, 99] = Inr 84342368487090800366523834928142263660104883695016514377462985829716817089965"
  by code_simp

lemma pow3_sign_empty:
  "pow3 102987336249554097029535212322581322789799900648198034993379397001115665086549 65 391 = Inr 319"
  "pow3 319 65537 391 = Inr 268"
  by code_simp+

lemma pow3_sign_abc:
  "pow3 84342368487090800366523834928142263660104883695016514377462985829716817089965 65 391 = Inr 109"
  by code_simp

text \<open>
  The key pair of the run with \<open>draws_prime\<close> and the message \<^verbatim>\<open>"abc"\<close>: the signature
  is 109, and since the digest is not below the modulus 391 the verification returns false.
\<close>

theorem sign_verify_witness:
  "generate_keys (RSA_init 10) draws_prime =
     Some (Inr (\<lparr>key_length = 10, key_pair =
                   Some \<lparr>public_key = \<lparr>N = 391, E = 65537\<rparr>, private_key = \<lparr>D = 65\<rparr>\<rparr>\<rparr>, sconst 65537)) \<and>
   prime_number 17 \<and> prime_number 23 \<and>
   hash_int [97, 98, 99] =
     Inr 84342368487090800366523834928142263660104883695016514377462985829716817089965 \<and>
   sign \<lparr>key_length = 10, key_pair =
           Some \<lparr>public_key = \<lparr>N = 391, E = 65537\<rparr>, private_key = \<lparr>D = 65\<rparr>\<rparr>\<rparr> [97, 98, 99] = Inr 109 \<and>
   verify [97, 98, 99] (JInt 109) (Some \<lparr>N = 391, E = 65537\<rparr>) = Inr False"
proof -
  define l where "l = \<lparr>kg_p = 17, kg_q = 23, kg_n = 391, kg_totient = 176, kg_e = 65537, kg_d = 65\<rparr>"
  define R' where "R' = \<lparr>key_length = 10, key_pair =
           Some \<lparr>public_key = \<lparr>N = 391, E = 65537\<rparr>, private_key = \<lparr>D = 65\<rparr>\<rparr>\<rparr>"
  have kl: "key_length (RSA_init 10) = 10" by (simp add: RSA_init_def)
  have loop: "generate_keys_loop (key_length (RSA_init 10)) draws_prime = Some (Inr (l, sconst 65537))"
    unfolding kl l_def by (rule keygen_run_prime)
  have p: "prime_number (kg_p l)" and q: "prime_number (kg_q l)"
    unfolding l_def by (simp_all add: prime_17 prime_23)
  have kp: "keypair_of l = \<lparr>public_key = \<lparr>N = 391, E = 65537\<rparr>, private_key = \<lparr>D = 65\<rparr>\<rparr>"
    unfolding l_def by (simp add: keypair_of_def)
  have run: "generate_keys (RSA_init 10) draws_prime = Some (Inr (R', sconst 65537))"
    unfolding R'_def by (rule generate_keys_prime)
  from sign_verify [OF run loop p q hash_abc]
  obtain signature where s: "sign R' [97, 98, 99] = Inr signature"
    and v: "verify [97, 98, 99] (JInt signature) (Some (public_key (keypair_of l))) =
              Inr (84342368487090800366523834928142263660104883695016514377462985829716817089965
                     < N (public_key (keypair_of l)))"
    by (elim exE conjE) (rule that, assumption+)
  have s': "sign R' [97, 98, 99] = Inr 109"
    unfolding R'_def by (simp add: sign_def hash_abc pow3_sign_abc)
  with s have "signature = 109" by simp
  with v have v': "verify [97, 98, 99] (JInt 109) (Some \<lparr>N = 391, E = 65537\<rparr>) = Inr False"
    unfolding kp by simp
  from run prime_17 prime_23 hash_abc s' v' show ?thesis unfolding R'_def by (intro conjI)
qed

text \<open>
  The same key pair, whose factors 17 and 23 are prime, and the empty message: \<^verbatim>\<open>sign\<close>
  returns 319 and \<^verbatim>\<open>verify\<close> of the message with this signature returns false.
\<close>

theorem verify_rejects_own_signature:
  "generate_keys (RSA_init 10) draws_prime =
     Some (Inr (\<lparr>key_length = 10, key_pair =
                   Some \<lparr>public_key = \<lparr>N = 391, E = 65537\<rparr>, private_key = \<lparr>D = 65\<rparr>\<rparr>\<rparr>, sconst 65537)) \<and>
   sign \<lparr>key_length = 10, key_pair =
           Some \<lparr>public_key = \<lparr>N = 391, E = 65537\<rparr>, private_key = \<lparr>D = 65\<rparr>\<rparr>\<rparr> [] = Inr 319 \<and>
   verify [] (JInt 319) (Some \<lparr>N = 391, E = 65537\<rparr>) = Inr False"
proof -
  have s: "sign \<lparr>key_length = 10, key_pair =
           Some \<lparr>public_key = \<lparr>N = 391, E = 65537\<rparr>, private_key = \<lparr>D = 65\<rparr>\<rparr>\<rparr> [] = Inr 319"
    by (simp add: sign_def hash_empty pow3_sign_empty)
  have v: "verify [] (JInt 319) (Some \<lparr>N = 391, E = 65537\<rparr>) = Inr False"
    by (simp add: verify_def hash_empty as_int_def pow3_sign_empty)
  from generate_keys_prime s v show ?thesis by (intro conjI)
qed

lemma traverse_Inl: "traverse f xs = Inl e \<Longrightarrow> \<exists>x\<in>set xs. f x = Inl e"
  by (induction xs) (auto split: sum.splits)

lemma traverse_fails:
  assumes "\<And>x e. x \<in> set xs \<Longrightarrow> f x = Inl e \<Longrightarrow> e = e0" and "x \<in> set xs" and "f x = Inl e0"
  shows "traverse f xs = Inl e0"
proof (cases "traverse f xs")
  case (Inl e)
  from traverse_Inl [OF this] assms(1) show ?thesis using Inl by auto
next
  case (Inr ys)
  then have "list_all2 (\<lambda>x y. f x = Inr y) xs ys" by (simp add: traverse_Inr)
  with assms(2) obtain y where "f x = Inr y" by (auto simp: list_all2_conv_all_nth in_set_conv_nth)
  with assms(3) show ?thesis by simp
qed

lemma utf8_encode_error: "utf8_encode s = Inl e \<Longrightarrow> e = UnicodeEncodeError"
  by (induction s) (auto simp: utf8_char_def split: sum.splits if_splits)

lemma hash_int_error: "hash_int m = Inl e \<Longrightarrow> e = UnicodeEncodeError"
  by (auto simp: hash_int_def dest: utf8_encode_error split: sum.splits)

lemma pow3_error: "pow3 b e m = Inl err \<Longrightarrow> err = ValueError"
  by (auto simp: pow3_def split: if_splits option.splits)

lemma chr_error: "chr i = Inl err \<Longrightarrow> err = ValueError"
  by (auto simp: chr_def split: if_splits)

lemma as_int_error: "as_int v = Inl err \<Longrightarrow> err = TypeError"
  by (auto simp: as_int_def split: json.splits)

lemma iterate_error: "iterate v = Inl err \<Longrightarrow> err = TypeError"
  by (auto simp: iterate_def split: json.splits)

lemma decrypt_unit_error: "decrypt_unit kp v = Inl err \<Longrightarrow> err = TypeError \<or> err = ValueError"
  by (auto simp: decrypt_unit_def dest: as_int_error pow3_error chr_error split: sum.splits)

lemma decrypt_with_keypair:
  assumes "key_pair R = Some kp"
  shows "decrypt R v \<noteq> Inl KeyPairNotGenerated"
proof
  assume d: "decrypt R v = Inl KeyPairNotGenerated"
  show False
  proof (cases "iterate v")
    case (Inl e)
    with d assms iterate_error [OF Inl] show False by (simp add: decrypt_def)
  next
    case (Inr units)
    with d assms have "traverse (decrypt_unit kp) units = Inl KeyPairNotGenerated"
      by (simp add: decrypt_def)
    from traverse_Inl [OF this] decrypt_unit_error show False by blast
  qed
qed

lemma sign_with_keypair:
  assumes "key_pair R = Some kp"
  shows "sign R message \<noteq> Inl KeyPairNotGenerated"
  using assms by (auto simp: sign_def dest: hash_int_error pow3_error split: sum.splits)

text \<open>
  Claim C6. \<^verbatim>\<open>decrypt\<close> and \<^verbatim>\<open>sign\<close> raise \<^verbatim>\<open>Exception('Key pair not generated')\<close>
  (the spec's \<open>StateError\<close>), and so return no result, exactly when the instance holds no
  key pair.
\<close>

theorem keypair_absent_iff_raises:
  "(decrypt R encrypted_message = Inl KeyPairNotGenerated \<longleftrightarrow> key_pair R = None) \<and>
   (sign R message = Inl KeyPairNotGenerated \<longleftrightarrow> key_pair R = None)"
proof (intro conjI iffI)
  assume "key_pair R = None"
  then show "decrypt R encrypted_message = Inl KeyPairNotGenerated" by (simp add: decrypt_def)
next
  assume "key_pair R = None"
  then show "sign R message = Inl KeyPairNotGenerated" by (simp add: sign_def)
next
  assume "decrypt R encrypted_message = Inl KeyPairNotGenerated"
  then show "key_pair R = None" using decrypt_with_keypair [of R] by (cases "key_pair R") auto
next
  assume "sign R message = Inl KeyPairNotGenerated"
  then show "key_pair R = None" using sign_with_keypair [of R] by (cases "key_pair R") auto
qed

text \<open>
  Claim C7. When no remote public key is known or there is no local key pair,
  \<^verbatim>\<open>send_message\<close> only appends the line "Encryption keys not exchanged." to the chat
  display (the spec's \<open>NotReady\<close>): nothing is written to the socket and no other field
  changes.
\<close>

theorem send_message_not_ready:
  assumes "other_public_key app = None \<or> key_pair (rsa app) = None"
  shows "send_message dumps app message nickname_entry = Inr (update_chat app KeysNotExchanged) \<and>
         client_socket (update_chat app KeysNotExchanged) = client_socket app \<and>
         sent (update_chat app KeysNotExchanged) = sent app \<and>
         chat (update_chat app KeysNotExchanged) = chat app @ [KeysNotExchanged]"
  using assms
  by (auto simp: send_message_def update_chat_def sent_def split: option.splits)

text \<open>
  A connected application that has generated no keys and received none: the send request
  leaves the list of writes empty.
\<close>

theorem send_message_not_ready_witness:
  "other_public_key (ChatApp_init\<lparr>client_socket := Some \<lparr>written = [], failing = False\<rparr>\<rparr>) = None \<and>
   send_message (\<lambda>v. []) (ChatApp_init\<lparr>client_socket := Some \<lparr>written = [], failing = False\<rparr>\<rparr>)
       [72, 105] [] =
     Inr (ChatApp_init\<lparr>client_socket := Some \<lparr>written = [], failing = False\<rparr>,
                       chat := [KeysNotExchanged]\<rparr>) \<and>
   sent (ChatApp_init\<lparr>client_socket := Some \<lparr>written = [], failing = False\<rparr>,
                       chat := [KeysNotExchanged]\<rparr>) = []"
proof -
  define app where "app = ChatApp_init\<lparr>client_socket := Some \<lparr>written = [], failing = False\<rparr>\<rparr>"
  have h: "other_public_key app = None \<or> key_pair (rsa app) = None"
    by (simp add: app_def ChatApp_init_def)
  have u: "update_chat app KeysNotExchanged =
      ChatApp_init\<lparr>client_socket := Some \<lparr>written = [], failing = False\<rparr>, chat := [KeysNotExchanged]\<rparr>"
    by (simp add: app_def update_chat_def ChatApp_init_def)
  have s: "sent app = []" by (simp add: app_def sent_def)
  have o: "other_public_key app = None" by (simp add: app_def ChatApp_init_def)
  from send_message_not_ready [OF h, of "\<lambda>v. []" "[72, 105]" "[]"] o s show ?thesis
    unfolding u unfolding app_def by simp
qed

end
